theory Spec2Isabelle
  imports Complex_Main
begin

section \<open>JavaScript values\<close>

text \<open>
  The values that flow through the promise code of \<^verbatim>\<open>js_polyfills_guide.js\<close>:
  primitives, the error objects the code constructs (\<^verbatim>\<open>new TypeError(msg)\<close>,
  \<^verbatim>\<open>new Error(msg)\<close>) and those the platform throws (the \<^verbatim>\<open>RangeError\<close> of \<^verbatim>\<open>Array(n)\<close>, the
  \<^verbatim>\<open>ReferenceError\<close> of a name without a declaration), plain object literals
  such as \<^verbatim>\<open>{ error }\<close> (a list of key/value pairs in source order) and references to
  \<^verbatim>\<open>MyPromise\<close> instances (the index of the instance in the heap).
\<close>

datatype errkind = Error | TypeError | RangeError | ReferenceError

datatype jsval =
    Undefined
  | Num int
  | Str string
  | Err errkind string
  | Obj "(string \<times> jsval) list"
  | Ref nat

section \<open>MyPromise (section 3.1 of the source)\<close>

datatype pstate = pending | fulfilled | rejected

text \<open>What a call of a handler does: it returns a value or throws one.\<close>

datatype completion = Return jsval | Throw jsval

text \<open>
  The functions that are passed to \<^verbatim>\<open>then\<close>. \<open>Fn f\<close> is a function of the caller that
  maps its argument to a returned or thrown value; \<open>ResolveOf p\<close> and \<open>RejectOf p\<close> are the
  closures \<^verbatim>\<open>resolve\<close> and \<^verbatim>\<open>reject\<close> that the constructor of the instance \<open>p\<close> creates
  (\<^verbatim>\<open>resolvePromise\<close> passes them to \<^verbatim>\<open>x.then(resolve, reject)\<close>).
\<close>

datatype handler = Fn "jsval \<Rightarrow> completion" | ResolveOf nat | RejectOf nat

text \<open>
  The closure that \<^verbatim>\<open>then\<close> pushes on \<^verbatim>\<open>onFulfilledCallbacks\<close> or \<^verbatim>\<open>onRejectedCallbacks\<close>
  captures the handler and \<^verbatim>\<open>promise2\<close>. When it is called it only calls
  \<^verbatim>\<open>setTimeout(..., 0)\<close>.
\<close>

datatype callback = Callback handler nat

datatype kind = OnFulfilled | OnRejected

text \<open>
  A function waiting in the timer queue: \<open>Task p k h p2\<close> is the arrow function given to
  \<^verbatim>\<open>setTimeout\<close> in \<^verbatim>\<open>then\<close>, called on the instance \<open>p\<close>. For \<open>k = OnFulfilled\<close> it runs
  \<^verbatim>\<open>onFulfilled(this.value)\<close>, for \<open>k = OnRejected\<close> it runs \<^verbatim>\<open>onRejected(this.reason)\<close>,
  and settles \<^verbatim>\<open>promise2\<close> from the outcome.
\<close>

datatype task = Task nat kind handler nat

record MyPromise =
  pstate :: pstate
  pvalue :: jsval
  preason :: jsval
  onFulfilledCallbacks :: "callback list"
  onRejectedCallbacks :: "callback list"

text \<open>
  The state of the program: the instances created so far (an instance is named by its
  index), the queue of \<^verbatim>\<open>setTimeout(..., 0)\<close> callbacks in the order they were scheduled,
  and two traces of what has happened. \<open>thens\<close> lists the calls of \<^verbatim>\<open>then\<close>: \<open>(p, p2)\<close>
  says that \<^verbatim>\<open>p.then(...)\<close> returned \<open>p2\<close>. \<open>calls\<close> lists the calls of handlers:
  \<open>(p, k, p2, a)\<close> says that the handler registered on \<open>p\<close> for the case \<open>k\<close>, whose outcome
  settles \<open>p2\<close>, was called with the argument \<open>a\<close>.
\<close>

record machine =
  heap :: "MyPromise list"
  timers :: "task list"
  thens :: "(nat \<times> nat) list"
  calls :: "(nat \<times> kind \<times> nat \<times> jsval) list"

definition empty_machine :: machine where
  "empty_machine = \<lparr>heap = [], timers = [], thens = [], calls = []\<rparr>"

definition schedule :: "nat \<Rightarrow> kind \<Rightarrow> callback \<Rightarrow> task" where
  "schedule p k cb = (case cb of Callback h p2 \<Rightarrow> Task p k h p2)"

text \<open>
  \<^verbatim>\<open>resolve\<close> and \<^verbatim>\<open>reject\<close> of the instance \<open>p\<close> (lines 300 to 314). \<^verbatim>\<open>forEach(fn => fn(value))\<close>
  calls the registered closures in order, and each of them schedules one timer.
\<close>

definition resolve :: "nat \<Rightarrow> jsval \<Rightarrow> machine \<Rightarrow> machine" where
  "resolve p v m =
     (if p < length (heap m) \<and> pstate (heap m ! p) = pending then
        m\<lparr>heap := (heap m)[p := (heap m ! p)\<lparr>pstate := fulfilled, pvalue := v\<rparr>],
          timers := timers m @ map (schedule p OnFulfilled) (onFulfilledCallbacks (heap m ! p))\<rparr>
      else m)"

definition reject :: "nat \<Rightarrow> jsval \<Rightarrow> machine \<Rightarrow> machine" where
  "reject p r m =
     (if p < length (heap m) \<and> pstate (heap m ! p) = pending then
        m\<lparr>heap := (heap m)[p := (heap m ! p)\<lparr>pstate := rejected, preason := r\<rparr>],
          timers := timers m @ map (schedule p OnRejected) (onRejectedCallbacks (heap m ! p))\<rparr>
      else m)"

text \<open>The fields a constructor call starts with (lines 294 to 298).\<close>

definition fresh :: MyPromise where
  "fresh = \<lparr>pstate = pending, pvalue = Undefined, preason = Undefined,
            onFulfilledCallbacks = [], onRejectedCallbacks = []\<rparr>"

text \<open>
  What an executor does with the two functions it receives, in order: it calls them, and
  it may throw. An executor that keeps them for later is the empty list here, followed by
  \<open>resolve\<close> or \<open>reject\<close> on the machine when the later call happens.
\<close>

datatype action = CallResolve jsval | CallReject jsval | ThrowValue jsval

fun executor :: "nat \<Rightarrow> action list \<Rightarrow> machine \<Rightarrow> machine" where
  "executor p [] m = m"
| "executor p (CallResolve v # as) m = executor p as (resolve p v m)"
| "executor p (CallReject r # as) m = executor p as (reject p r m)"
| "executor p (ThrowValue e # as) m = reject p e m"

definition new_MyPromise :: "action list \<Rightarrow> machine \<Rightarrow> nat \<times> machine" where
  "new_MyPromise as m =
     (let p = length (heap m) in (p, executor p as (m\<lparr>heap := heap m @ [fresh]\<rparr>)))"

text \<open>
  \<^verbatim>\<open>then\<close> (lines 323 to 376). A handler that is not a function is replaced by
  \<^verbatim>\<open>value => value\<close> or \<^verbatim>\<open>reason => { throw reason; }\<close>. The executor of \<^verbatim>\<open>promise2\<close> runs
  at once and looks at the state of \<^verbatim>\<open>this\<close>.
\<close>

definition handler_or :: "handler \<Rightarrow> handler option \<Rightarrow> handler" where
  "handler_or d f = (case f of Some h \<Rightarrow> h | None \<Rightarrow> d)"

definition MyPromise_then ::
  "nat \<Rightarrow> handler option \<Rightarrow> handler option \<Rightarrow> machine \<Rightarrow> nat \<times> machine" where
  "MyPromise_then p onFulfilled onRejected m =
     (let h1 = handler_or (Fn Return) onFulfilled;
          h2 = handler_or (Fn Throw) onRejected;
          p2 = length (heap m);
          m1 = m\<lparr>heap := heap m @ [fresh], thens := thens m @ [(p, p2)]\<rparr>;
          this = heap m1 ! p
      in (p2,
          case pstate this of
            fulfilled \<Rightarrow> m1\<lparr>timers := timers m1 @ [Task p OnFulfilled h1 p2]\<rparr>
          | rejected \<Rightarrow> m1\<lparr>timers := timers m1 @ [Task p OnRejected h2 p2]\<rparr>
          | pending \<Rightarrow>
              m1\<lparr>heap := (heap m1)[p := this
                   \<lparr>onFulfilledCallbacks := onFulfilledCallbacks this @ [Callback h1 p2],
                    onRejectedCallbacks := onRejectedCallbacks this @ [Callback h2 p2]\<rparr>]\<rparr>))"

definition MyPromise_catch :: "nat \<Rightarrow> handler option \<Rightarrow> machine \<Rightarrow> nat \<times> machine" where
  "MyPromise_catch p onRejected m = MyPromise_then p None onRejected m"

text \<open>\<^verbatim>\<open>x instanceof MyPromise\<close>: the value is a reference to an instance.\<close>

definition instanceof_MyPromise :: "jsval \<Rightarrow> machine \<Rightarrow> bool" where
  "instanceof_MyPromise x m = (case x of Ref q \<Rightarrow> q < length (heap m) | _ \<Rightarrow> False)"

text \<open>The static methods (lines 389 to 398).\<close>

definition MyPromise_resolve :: "jsval \<Rightarrow> machine \<Rightarrow> jsval \<times> machine" where
  "MyPromise_resolve v m =
     (if instanceof_MyPromise v m then (v, m)
      else (case new_MyPromise [CallResolve v] m of (p, m') \<Rightarrow> (Ref p, m')))"

definition MyPromise_reject :: "jsval \<Rightarrow> machine \<Rightarrow> jsval \<times> machine" where
  "MyPromise_reject r m = (case new_MyPromise [CallReject r] m of (p, m') \<Rightarrow> (Ref p, m'))"

text \<open>\<^verbatim>\<open>resolvePromise\<close> (lines 401 to 411).\<close>

definition resolvePromise :: "nat \<Rightarrow> jsval \<Rightarrow> machine \<Rightarrow> machine" where
  "resolvePromise promise2 x m =
     (if x = Ref promise2 then reject promise2 (Err TypeError ''Chaining cycle detected'') m
      else if instanceof_MyPromise x m then
        (case x of Ref q \<Rightarrow>
           snd (MyPromise_then q (Some (ResolveOf promise2)) (Some (RejectOf promise2)) m)
         | _ \<Rightarrow> m)
      else resolve promise2 x m)"

text \<open>
  Calling a handler. The closures \<^verbatim>\<open>resolve\<close> and \<^verbatim>\<open>reject\<close> return \<^verbatim>\<open>undefined\<close>.
\<close>

fun call_handler :: "handler \<Rightarrow> jsval \<Rightarrow> machine \<Rightarrow> completion \<times> machine" where
  "call_handler (Fn f) a m = (f a, m)"
| "call_handler (ResolveOf q) a m = (Return Undefined, resolve q a m)"
| "call_handler (RejectOf q) a m = (Return Undefined, reject q a m)"

text \<open>
  The body of a timer callback of \<^verbatim>\<open>then\<close>:
  \<^verbatim>\<open>try { const x = h(this.value); resolvePromise(promise2, x, resolve, reject); }
  catch (error) { reject(error); }\<close>
\<close>

definition argument :: "kind \<Rightarrow> MyPromise \<Rightarrow> jsval" where
  "argument k this = (case k of OnFulfilled \<Rightarrow> pvalue this | OnRejected \<Rightarrow> preason this)"

fun run_task :: "task \<Rightarrow> machine \<Rightarrow> machine" where
  "run_task (Task p k h p2) m =
     (let a = argument k (heap m ! p) in
      case call_handler h a (m\<lparr>calls := calls m @ [(p, k, p2, a)]\<rparr>) of
        (Return x, m') \<Rightarrow> resolvePromise p2 x m'
      | (Throw e, m') \<Rightarrow> reject p2 e m')"

text \<open>One turn of the event loop: the oldest timer callback runs.\<close>

definition run_timer :: "machine \<Rightarrow> machine" where
  "run_timer m = (case timers m of [] \<Rightarrow> m | t # ts \<Rightarrow> run_task t (m\<lparr>timers := ts\<rparr>))"

text \<open>
  A program is a sequence of steps: the code of the caller creates an instance, calls a
  \<^verbatim>\<open>resolve\<close> or \<^verbatim>\<open>reject\<close> that an executor kept, calls \<^verbatim>\<open>then\<close> on an instance, or the
  event loop takes a turn.
\<close>

datatype op =
    New "action list"
  | Resolve nat jsval
  | Reject nat jsval
  | Then nat "handler option" "handler option"
  | Tick

fun exec :: "op \<Rightarrow> machine \<Rightarrow> machine" where
  "exec (New as) m = snd (new_MyPromise as m)"
| "exec (Resolve p v) m = resolve p v m"
| "exec (Reject p r) m = reject p r m"
| "exec (Then p f g) m = (if p < length (heap m) then snd (MyPromise_then p f g m) else m)"
| "exec Tick m = run_timer m"

definition run :: "op list \<Rightarrow> machine \<Rightarrow> machine" where
  "run ops m = fold exec ops m"

text \<open>How an instance has settled, as a caller sees it.\<close>

datatype 'a future = Pending | Fulfilled 'a | Rejected jsval

definition outcome_of :: "MyPromise \<Rightarrow> jsval future" where
  "outcome_of pr =
     (case pstate pr of
        pending \<Rightarrow> Pending
      | fulfilled \<Rightarrow> Fulfilled (pvalue pr)
      | rejected \<Rightarrow> Rejected (preason pr))"

section \<open>The platform's promises, as the code below uses them\<close>

text \<open>
  The remaining functions run on the platform's \<^verbatim>\<open>Promise\<close> and on \<^verbatim>\<open>async\<close> functions.
  A promise of the platform settles at most once (\<open>settle\<close>), and a reaction registered on
  it runs at most once. The promise that a task or an input returns is given by the way it
  settles in the end; the order in which the reactions run is a parameter of each model
  (the schedule), and an input that never settles does not occur in the schedule.
\<close>

datatype outcome = Success jsval | Failure jsval

definition settle :: "'a future \<Rightarrow> 'a future \<Rightarrow> 'a future" where
  "settle new cur = (if cur = Pending then new else cur)"

text \<open>
  A JavaScript array with holes: \<open>None\<close> is an empty slot. \<^verbatim>\<open>xs[i] = v\<close> extends the
  array when \<open>i\<close> is beyond its end.
\<close>

definition array_set :: "'a option list \<Rightarrow> nat \<Rightarrow> 'a \<Rightarrow> 'a option list" where
  "array_set xs i v =
     (if i < length xs then xs[i := Some v]
      else xs @ replicate (i - length xs) None @ [Some v])"

section \<open>mapLimitOptimized (section 4 of the source)\<close>

text \<open>
  A worker is an \<^verbatim>\<open>async\<close> function: it is suspended at \<^verbatim>\<open>await asyncFn(item, index)\<close>
  for the index it took from the shared iterator, or it has returned (the iterator was
  exhausted), or it has thrown (the awaited promise rejected).
\<close>

datatype worker = Awaiting nat | Returned | Thrown jsval

text \<open>
  \<open>results\<close> is the array \<^verbatim>\<open>new Array(array.length)\<close>, \<open>iterator\<close> the position of
  \<^verbatim>\<open>array.entries()\<close>, \<open>workers\<close> the promises of the \<^verbatim>\<open>worker()\<close> calls and \<open>promise\<close> the
  promise that the function returns. Three traces record what happened, in order:
  \<open>started\<close> the indices \<^verbatim>\<open>asyncFn\<close> was called with, \<open>settled\<close> the indices whose awaited
  promise has settled and resumed its worker, \<open>written\<close> the indices \<^verbatim>\<open>results[index]\<close> was
  assigned at.
\<close>

record pool =
  results :: "jsval option list"
  iterator :: nat
  workers :: "worker list"
  promise :: "jsval option list future"
  started :: "nat list"
  settled :: "nat list"
  written :: "nat list"

text \<open>
  One step of \<^verbatim>\<open>for (const [index, item] of iterator)\<close> up to the \<^verbatim>\<open>await\<close>: the worker
  takes the next entry and calls the task, or leaves the loop and returns. Taking the
  entry and advancing the iterator is one synchronous step.
\<close>

definition next_entry :: "nat \<Rightarrow> 'z pool_scheme \<Rightarrow> worker \<times> 'z pool_scheme" where
  "next_entry n st =
     (if iterator st < n then
        (Awaiting (iterator st),
         st\<lparr>iterator := Suc (iterator st), started := started st @ [iterator st]\<rparr>)
      else (Returned, st))"

text \<open>
  \<^verbatim>\<open>await Promise.all(workers); return results;\<close> seen from the returned promise: it
  rejects with the reason of the first worker that throws and fulfils with \<open>results\<close> once
  every worker has returned.
\<close>

fun first_thrown :: "worker list \<Rightarrow> jsval option" where
  "first_thrown [] = None"
| "first_thrown (Thrown e # ws) = Some e"
| "first_thrown (w # ws) = first_thrown ws"

definition await_all :: "'z pool_scheme \<Rightarrow> 'z pool_scheme" where
  "await_all st =
     (case first_thrown (workers st) of
        Some e \<Rightarrow> st\<lparr>promise := settle (Rejected e) (promise st)\<rparr>
      | None \<Rightarrow>
          if list_all (\<lambda>w. w = Returned) (workers st)
          then st\<lparr>promise := settle (Fulfilled (results st)) (promise st)\<rparr>
          else st)"

text \<open>\<^verbatim>\<open>Array(k).fill().map(() => worker())\<close>: each call runs its worker up to the first
  \<^verbatim>\<open>await\<close>.\<close>

fun spawn :: "nat \<Rightarrow> nat \<Rightarrow> 'z pool_scheme \<Rightarrow> 'z pool_scheme" where
  "spawn n 0 st = st"
| "spawn n (Suc k) st =
     spawn n k (case next_entry n st of (w, st') \<Rightarrow> st'\<lparr>workers := workers st' @ [w]\<rparr>)"

text \<open>
  The synchronous part of the call. \<^verbatim>\<open>Array(n)\<close> throws a \<^verbatim>\<open>RangeError\<close> for a negative
  length, which rejects the promise of the \<^verbatim>\<open>async\<close> function.
\<close>

definition mapLimitOptimized_start :: "'a list \<Rightarrow> int \<Rightarrow> pool" where
  "mapLimitOptimized_start array limit =
     (let n = length array;
          st = \<lparr>results = replicate n None, iterator = 0, workers = [], promise = Pending,
                started = [], settled = [], written = []\<rparr>
      in if min limit (int n) < 0
         then st\<lparr>promise := Rejected (Err RangeError ''Invalid array length'')\<rparr>
         else await_all (spawn n (nat (min limit (int n))) st))"

text \<open>
  The promise awaited by worker \<open>w\<close> settles and the worker runs up to its next \<^verbatim>\<open>await\<close>:
  on fulfilment it assigns \<^verbatim>\<open>results[index]\<close> and goes round the loop, on rejection the
  \<^verbatim>\<open>await\<close> throws out of the worker. (The array iterator has no \<^verbatim>\<open>return\<close> method, so
  leaving the loop by an exception does not close it for the other workers.)
\<close>

definition mapLimitOptimized_resume ::
  "'a list \<Rightarrow> ('a \<Rightarrow> nat \<Rightarrow> outcome) \<Rightarrow> nat \<Rightarrow> pool \<Rightarrow> pool" where
  "mapLimitOptimized_resume array asyncFn w st =
     (if w < length (workers st) then
        (case workers st ! w of
           Awaiting index \<Rightarrow>
             (let st1 = st\<lparr>settled := settled st @ [index]\<rparr> in
              case asyncFn (array ! index) index of
                Success v \<Rightarrow>
                  (case next_entry (length array)
                          (st1\<lparr>results := array_set (results st1) index v,
                               written := written st1 @ [index]\<rparr>) of
                     (w', st2) \<Rightarrow> await_all (st2\<lparr>workers := (workers st2)[w := w']\<rparr>))
              | Failure e \<Rightarrow> await_all (st1\<lparr>workers := (workers st1)[w := Thrown e]\<rparr>))
         | _ \<Rightarrow> st)
      else st)"

text \<open>
  The whole call, for a schedule: the list of the workers in the order in which their
  awaited promises settle.
\<close>

definition mapLimitOptimized ::
  "'a list \<Rightarrow> int \<Rightarrow> ('a \<Rightarrow> nat \<Rightarrow> outcome) \<Rightarrow> nat list \<Rightarrow> pool" where
  "mapLimitOptimized array limit asyncFn sched =
     fold (mapLimitOptimized_resume array asyncFn) sched (mapLimitOptimized_start array limit)"

section \<open>parallelLimitOptimized (section 9 of the source)\<close>

text \<open>
  The statement \<^verbatim>\<open>if (onProgress) { onProgress(completed, tasks.length); }\<close> of lines 1080
  and 1086. The function declares \<^verbatim>\<open>tasks\<close>, \<^verbatim>\<open>limit\<close>, \<^verbatim>\<open>results\<close>, \<^verbatim>\<open>iterator\<close>,
  \<^verbatim>\<open>completed\<close>, \<^verbatim>\<open>worker\<close> and \<^verbatim>\<open>workers\<close>, and the file declares no \<^verbatim>\<open>onProgress\<close> around it
  (the name is a parameter of another function, \<^verbatim>\<open>parallelLimitWithProgress\<close>). Evaluating
  the name throws a \<^verbatim>\<open>ReferenceError\<close>, so the statement throws before the test or the call
  is reached. \<open>report c n = Some e\<close> says that the statement, reached with
  \<^verbatim>\<open>completed = c\<close> and \<^verbatim>\<open>tasks.length = n\<close>, throws \<open>e\<close>.
\<close>

definition not_defined :: "string \<Rightarrow> jsval" where
  "not_defined name = Err ReferenceError (name @ '' is not defined'')"

definition report :: "nat \<Rightarrow> nat \<Rightarrow> jsval option" where
  "report c n = Some (not_defined ''onProgress'')"

record ppool = pool +
  completed :: nat

text \<open>The \<^verbatim>\<open>catch (error)\<close> block of the worker, and what the worker does next.\<close>

definition catch_block :: "nat \<Rightarrow> nat \<Rightarrow> jsval \<Rightarrow> ppool \<Rightarrow> worker \<times> ppool" where
  "catch_block n index error st =
     (let st1 = st\<lparr>results := array_set (results st) index (Obj [(''error'', error)]),
                   written := written st @ [index],
                   completed := Suc (completed st)\<rparr>
      in case report (completed st1) n of
           None \<Rightarrow> next_entry n st1
         | Some e \<Rightarrow> (Thrown e, st1))"

definition parallelLimitOptimized_start :: "outcome list \<Rightarrow> int \<Rightarrow> ppool" where
  "parallelLimitOptimized_start tasks limit =
     (let n = length tasks;
          st = \<lparr>results = replicate n None, iterator = 0, workers = [], promise = Pending,
                started = [], settled = [], written = [], completed = 0\<rparr>
      in if min limit (int n) < 0
         then st\<lparr>promise := Rejected (Err RangeError ''Invalid array length'')\<rparr>
         else await_all (spawn n (nat (min limit (int n))) st))"

text \<open>
  The promise awaited by worker \<open>w\<close> settles and the worker runs up to its next \<^verbatim>\<open>await\<close>
  or to its end. On fulfilment the \<^verbatim>\<open>try\<close> block goes on: it assigns \<^verbatim>\<open>results[index]\<close>,
  counts, and reaches the statement above, whose error the \<^verbatim>\<open>catch\<close> block receives. On
  rejection the \<^verbatim>\<open>catch\<close> block receives the reason. An error thrown in the \<^verbatim>\<open>catch\<close> block
  leaves the worker.
\<close>

definition parallelLimitOptimized_resume :: "outcome list \<Rightarrow> nat \<Rightarrow> ppool \<Rightarrow> ppool" where
  "parallelLimitOptimized_resume tasks w st =
     (if w < length (workers st) then
        (case workers st ! w of
           Awaiting index \<Rightarrow>
             (let n = length tasks;
                  st1 = st\<lparr>settled := settled st @ [index]\<rparr>;
                  (w', st3) =
                    (case tasks ! index of
                       Success v \<Rightarrow>
                         (let st2 = st1\<lparr>results := array_set (results st1) index v,
                                        written := written st1 @ [index],
                                        completed := Suc (completed st1)\<rparr>
                          in case report (completed st2) n of
                               None \<Rightarrow> next_entry n st2
                             | Some e \<Rightarrow> catch_block n index e st2)
                     | Failure e \<Rightarrow> catch_block n index e st1)
              in await_all (st3\<lparr>workers := (workers st3)[w := w']\<rparr>))
         | _ \<Rightarrow> st)
      else st)"

text \<open>
  The whole call, for a schedule: the list of the workers in the order in which their
  awaited promises settle. A task is given by the way the promise of \<^verbatim>\<open>task()\<close> settles.
\<close>

definition parallelLimitOptimized :: "outcome list \<Rightarrow> int \<Rightarrow> nat list \<Rightarrow> ppool" where
  "parallelLimitOptimized tasks limit sched =
     fold (parallelLimitOptimized_resume tasks) sched (parallelLimitOptimized_start tasks limit)"

section \<open>Promise.myAll, Promise.myRace, Promise.myAllSettled (sections 3.2 to 3.4)\<close>

text \<open>
  The argument is an array or it is not (\<^verbatim>\<open>Array.isArray\<close>). An element of the array is
  given by the way \<^verbatim>\<open>Promise.resolve(element)\<close> settles. \<open>ran\<close> lists the inputs whose
  reaction has run: the reactions \<^verbatim>\<open>.then(f).catch(g)\<close> of one input run \<open>f\<close> when it fulfils
  and \<open>g\<close> when it rejects, once.
\<close>

datatype arg = NotArray | Array "outcome list"

record all_state =
  all_results :: "jsval option list"
  completedCount :: nat
  all_promise :: "jsval option list future"
  all_ran :: "nat list"

definition myAll_start :: "arg \<Rightarrow> all_state" where
  "myAll_start promises =
     (let st = \<lparr>all_results = [], completedCount = 0, all_promise = Pending, all_ran = []\<rparr>
      in case promises of
           NotArray \<Rightarrow> st\<lparr>all_promise := Rejected (Err TypeError ''Argument must be an array'')\<rparr>
         | Array ps \<Rightarrow> if length ps = 0 then st\<lparr>all_promise := Fulfilled []\<rparr> else st)"

definition myAll_react :: "outcome list \<Rightarrow> nat \<Rightarrow> all_state \<Rightarrow> all_state" where
  "myAll_react ps index st =
     (if index < length ps \<and> index \<notin> set (all_ran st) then
        (let st1 = st\<lparr>all_ran := all_ran st @ [index]\<rparr> in
         case ps ! index of
           Success v \<Rightarrow>
             (let st2 = st1\<lparr>all_results := array_set (all_results st1) index v,
                            completedCount := Suc (completedCount st1)\<rparr>
              in if completedCount st2 = length ps
                 then st2\<lparr>all_promise := settle (Fulfilled (all_results st2)) (all_promise st2)\<rparr>
                 else st2)
         | Failure e \<Rightarrow> st1\<lparr>all_promise := settle (Rejected e) (all_promise st1)\<rparr>)
      else st)"

definition myAll :: "arg \<Rightarrow> nat list \<Rightarrow> all_state" where
  "myAll promises sched =
     (case promises of
        NotArray \<Rightarrow> myAll_start promises
      | Array ps \<Rightarrow>
          if length ps = 0 then myAll_start promises
          else fold (myAll_react ps) sched (myAll_start promises))"

record race_state =
  race_promise :: "jsval future"
  race_ran :: "nat list"

definition myRace_start :: "arg \<Rightarrow> race_state" where
  "myRace_start promises =
     (let st = \<lparr>race_promise = Pending, race_ran = []\<rparr>
      in case promises of
           NotArray \<Rightarrow> st\<lparr>race_promise := Rejected (Err TypeError ''Argument must be an array'')\<rparr>
         | Array ps \<Rightarrow> st)"

definition myRace_react :: "outcome list \<Rightarrow> nat \<Rightarrow> race_state \<Rightarrow> race_state" where
  "myRace_react ps index st =
     (if index < length ps \<and> index \<notin> set (race_ran st) then
        (let st1 = st\<lparr>race_ran := race_ran st @ [index]\<rparr> in
         case ps ! index of
           Success v \<Rightarrow> st1\<lparr>race_promise := settle (Fulfilled v) (race_promise st1)\<rparr>
         | Failure e \<Rightarrow> st1\<lparr>race_promise := settle (Rejected e) (race_promise st1)\<rparr>)
      else st)"

text \<open>
  For an empty array the executor returns before \<^verbatim>\<open>forEach\<close>: no reaction is registered
  and \<^verbatim>\<open>resolve\<close> and \<^verbatim>\<open>reject\<close> are dropped.
\<close>

definition myRace :: "arg \<Rightarrow> nat list \<Rightarrow> race_state" where
  "myRace promises sched =
     (case promises of
        NotArray \<Rightarrow> myRace_start promises
      | Array ps \<Rightarrow>
          if length ps = 0 then myRace_start promises
          else fold (myRace_react ps) sched (myRace_start promises))"

text \<open>
  The calls that the continuations \<^verbatim>\<open>p.then(onFulfilled, onRejected)\<close> of a caller receive
  from a promise of the platform in a given state.
\<close>

datatype 'a delivery = OnFulfilledCalled 'a | OnRejectedCalled jsval

definition delivered :: "'a future \<Rightarrow> 'a delivery list" where
  "delivered p =
     (case p of
        Pending \<Rightarrow> []
      | Fulfilled v \<Rightarrow> [OnFulfilledCalled v]
      | Rejected e \<Rightarrow> [OnRejectedCalled e])"

record settled_state =
  settled_results :: "jsval option list"
  settledCount :: nat
  settled_promise :: "jsval option list future"
  settled_ran :: "nat list"

definition myAllSettled_start :: "arg \<Rightarrow> settled_state" where
  "myAllSettled_start promises =
     (let st = \<lparr>settled_results = [], settledCount = 0, settled_promise = Pending,
                settled_ran = []\<rparr>
      in case promises of
           NotArray \<Rightarrow> st\<lparr>settled_promise := Fulfilled []\<rparr>
         | Array ps \<Rightarrow> if length ps = 0 then st\<lparr>settled_promise := Fulfilled []\<rparr> else st)"

text \<open>The records \<^verbatim>\<open>{ status: 'fulfilled', value }\<close> and \<^verbatim>\<open>{ status: 'rejected', reason }\<close>.\<close>

definition settled_record :: "outcome \<Rightarrow> jsval" where
  "settled_record out =
     (case out of
        Success v \<Rightarrow> Obj [(''status'', Str ''fulfilled''), (''value'', v)]
      | Failure r \<Rightarrow> Obj [(''status'', Str ''rejected''), (''reason'', r)])"

definition myAllSettled_react :: "outcome list \<Rightarrow> nat \<Rightarrow> settled_state \<Rightarrow> settled_state" where
  "myAllSettled_react ps index st =
     (if index < length ps \<and> index \<notin> set (settled_ran st) then
        (let st1 = st\<lparr>settled_ran := settled_ran st @ [index],
                       settled_results :=
                         array_set (settled_results st) index (settled_record (ps ! index)),
                       settledCount := Suc (settledCount st)\<rparr>
         in if settledCount st1 = length ps
            then st1\<lparr>settled_promise :=
                       settle (Fulfilled (settled_results st1)) (settled_promise st1)\<rparr>
            else st1)
      else st)"

definition myAllSettled :: "arg \<Rightarrow> nat list \<Rightarrow> settled_state" where
  "myAllSettled promises sched =
     (case promises of
        NotArray \<Rightarrow> myAllSettled_start promises
      | Array ps \<Rightarrow>
          if length ps = 0 then myAllSettled_start promises
          else fold (myAllSettled_react ps) sched (myAllSettled_start promises))"

section \<open>retry and retryWithBackoff (section 14 of the source)\<close>

text \<open>
  A number of the platform is a double: a finite value, an infinity or \<^verbatim>\<open>NaN\<close>. A finite
  number is given by its value, a rational (the two zeros are one value here; they print
  alike and wait alike).
\<close>

datatype number = Finite rat | PosInfinity | NegInfinity | NaN

text \<open>
  The loop counter \<^verbatim>\<open>attempt\<close> starts at 1 and changes by \<^verbatim>\<open>attempt++\<close> only, so its values
  are positive integers, given as naturals. The sum of a double and 1 is exact below
  \<open>2\<^sup>5\<^sup>3\<close>; \<open>2\<^sup>5\<^sup>3 + 1\<close> is no double and rounds to \<open>2\<^sup>5\<^sup>3\<close>, where the counter stays.
  \<open>at_most\<close> is \<^verbatim>\<open>attempt <= maxAttempts\<close> and \<open>strictly_equal\<close> is
  \<^verbatim>\<open>attempt === maxAttempts\<close>, for a number \<^verbatim>\<open>maxAttempts\<close>.
\<close>

definition increment :: "nat \<Rightarrow> nat" where
  "increment attempt = (if attempt < 2 ^ 53 then attempt + 1 else attempt)"

definition at_most :: "nat \<Rightarrow> number \<Rightarrow> bool" where
  "at_most attempt maxAttempts =
     (case maxAttempts of
        Finite q \<Rightarrow> of_nat attempt \<le> q
      | PosInfinity \<Rightarrow> True
      | NegInfinity \<Rightarrow> False
      | NaN \<Rightarrow> False)"

definition strictly_equal :: "nat \<Rightarrow> number \<Rightarrow> bool" where
  "strictly_equal attempt maxAttempts = (maxAttempts = Finite (of_nat attempt))"

text \<open>
  Numbers and other values in a template literal. An integer of magnitude up to \<open>2\<^sup>5\<^sup>3\<close> is
  printed with its decimal digits, the infinities and \<^verbatim>\<open>NaN\<close> by their names. Every other
  finite number is printed by the platform with the shortest digits that read back as the
  same double; that conversion is the parameter \<open>toString\<close> of the definitions that print.
\<close>

function show_nat :: "nat \<Rightarrow> string" where
  "show_nat n =
     (if n < 10 then [''0123456789'' ! n]
      else show_nat (n div 10) @ [''0123456789'' ! (n mod 10)])"
  by pat_completeness auto
termination
  by (relation "measure (\<lambda>n. n)") auto

definition show_int :: "int \<Rightarrow> string" where
  "show_int i = (if i < 0 then ''-'' @ show_nat (nat (- i)) else show_nat (nat i))"

definition number_to_string :: "(rat \<Rightarrow> string) \<Rightarrow> number \<Rightarrow> string" where
  "number_to_string toString x =
     (case x of
        Finite q \<Rightarrow>
          if of_int \<lfloor>q\<rfloor> = q \<and> \<bar>q\<bar> \<le> 2 ^ 53 then show_int \<lfloor>q\<rfloor> else toString q
      | PosInfinity \<Rightarrow> ''Infinity''
      | NegInfinity \<Rightarrow> ''-Infinity''
      | NaN \<Rightarrow> ''NaN'')"

definition errkind_name :: "errkind \<Rightarrow> string" where
  "errkind_name k = (case k of Error \<Rightarrow> ''Error'' | TypeError \<Rightarrow> ''TypeError''
                     | RangeError \<Rightarrow> ''RangeError'' | ReferenceError \<Rightarrow> ''ReferenceError'')"

definition to_string :: "(rat \<Rightarrow> string) \<Rightarrow> jsval \<Rightarrow> string" where
  "to_string toString x =
     (case x of
        Undefined \<Rightarrow> ''undefined''
      | Num i \<Rightarrow> number_to_string toString (Finite (of_int i))
      | Str s \<Rightarrow> s
      | Err k msg \<Rightarrow> (if msg = [] then errkind_name k else errkind_name k @ '': '' @ msg)
      | Obj kvs \<Rightarrow> ''[object Object]''
      | Ref p \<Rightarrow> ''[object Object]'')"

text \<open>
  \<^verbatim>\<open>error.message\<close>: reading a property of \<^verbatim>\<open>undefined\<close> throws a \<^verbatim>\<open>TypeError\<close> (with the
  message that V8 gives it), a value without the property gives \<^verbatim>\<open>undefined\<close>.
\<close>

definition get_message :: "jsval \<Rightarrow> completion" where
  "get_message error =
     (case error of
        Undefined \<Rightarrow>
          Throw (Err TypeError ''Cannot read properties of undefined (reading 'message')'')
      | Err k msg \<Rightarrow> Return (Str msg)
      | Obj kvs \<Rightarrow>
          Return (case map_of (rev kvs) ''message'' of Some v \<Rightarrow> v | None \<Rightarrow> Undefined)
      | _ \<Rightarrow> Return Undefined)"

text \<open>
  What \<^verbatim>\<open>throw new Error(`Failed after ${maxAttempts} attempts: ${error.message}`)\<close>
  throws: the new error, or the \<^verbatim>\<open>TypeError\<close> of reading \<^verbatim>\<open>error.message\<close>.
\<close>

definition retry_failure :: "(rat \<Rightarrow> string) \<Rightarrow> number \<Rightarrow> jsval \<Rightarrow> jsval" where
  "retry_failure toString maxAttempts error =
     (case get_message error of
        Throw t \<Rightarrow> t
      | Return msg \<Rightarrow>
          Err Error (''Failed after '' @ number_to_string toString maxAttempts @
                     '' attempts: '' @ to_string toString msg))"

text \<open>
  What a call of a retry function has done: the state of the promise it returned, how
  often it called \<^verbatim>\<open>fn\<close>, the delays it passed to \<^verbatim>\<open>setTimeout\<close>, the lines it gave to
  \<^verbatim>\<open>console.log\<close> and the arguments it called \<^verbatim>\<open>onRetry\<close> with. The producer \<^verbatim>\<open>fn\<close> is given
  by the outcome of each of its calls: \<open>fn k\<close> is how the promise of the call after \<open>k\<close>
  earlier calls settles.
\<close>

record retried =
  returned :: "jsval future"
  invocations :: nat
  waits :: "number list"
  console :: "string list"
  retries :: "(nat \<times> jsval \<times> number) list"

definition retried_init :: retried where
  "retried_init = \<lparr>returned = Pending, invocations = 0, waits = [], console = [], retries = []\<rparr>"

text \<open>
  The loop of \<^verbatim>\<open>retry\<close> from the test of \<^verbatim>\<open>attempt <= maxAttempts\<close> on. The loop need not
  end: the value is \<open>None\<close> when it does not. When the test fails the function returns
  \<^verbatim>\<open>undefined\<close>.
\<close>

partial_function (option) retry_loop ::
  "(rat \<Rightarrow> string) \<Rightarrow> (nat \<Rightarrow> outcome) \<Rightarrow> number \<Rightarrow> number \<Rightarrow> nat \<Rightarrow> retried \<Rightarrow>
   retried option" where
  "retry_loop toString fn maxAttempts delay attempt st =
     (if at_most attempt maxAttempts then
        (case fn (invocations st) of
           Success result \<Rightarrow>
             Some (st\<lparr>invocations := Suc (invocations st), returned := Fulfilled result\<rparr>)
         | Failure error \<Rightarrow>
             if strictly_equal attempt maxAttempts then
               Some (st\<lparr>invocations := Suc (invocations st),
                        returned := Rejected (retry_failure toString maxAttempts error)\<rparr>)
             else
               retry_loop toString fn maxAttempts delay (increment attempt)
                 (st\<lparr>invocations := Suc (invocations st),
                     console := console st @
                       [''Attempt '' @ show_nat attempt @ '' failed, retrying in '' @
                        number_to_string toString delay @ ''ms...''],
                     waits := waits st @ [delay]\<rparr>))
      else Some (st\<lparr>returned := Fulfilled Undefined\<rparr>))"

text \<open>A parameter or an option that is \<^verbatim>\<open>undefined\<close> takes its default.\<close>

definition or_default :: "'a \<Rightarrow> 'a option \<Rightarrow> 'a" where
  "or_default d x = (case x of Some v \<Rightarrow> v | None \<Rightarrow> d)"

definition retry ::
  "(rat \<Rightarrow> string) \<Rightarrow> (nat \<Rightarrow> outcome) \<Rightarrow> number option \<Rightarrow> number option \<Rightarrow> retried option" where
  "retry toString fn maxAttempts delay =
     retry_loop toString fn (or_default (Finite 3) maxAttempts) (or_default (Finite 1000) delay)
       1 retried_init"

text \<open>
  The options of \<^verbatim>\<open>retryWithBackoff\<close>; \<open>None\<close> is a property that is \<^verbatim>\<open>undefined\<close>.
  \<open>onRetry attempt error delay = Some e\<close> says that the call throws \<open>e\<close>. The arguments
  of the loop are the constants of the destructuring and the variable \<^verbatim>\<open>delay\<close>.
\<close>

record options =
  opt_maxAttempts :: "number option"
  opt_initialDelay :: "number option"
  opt_maxDelay :: "number option"
  opt_backoffFactor :: "number option"
  opt_onRetry :: "(nat \<Rightarrow> jsval \<Rightarrow> number \<Rightarrow> jsval option) option"

definition no_options :: options where
  "no_options = \<lparr>opt_maxAttempts = None, opt_initialDelay = None, opt_maxDelay = None,
                 opt_backoffFactor = None, opt_onRetry = None\<rparr>"

text \<open>
  \<^verbatim>\<open>Math.min\<close> of two numbers: \<^verbatim>\<open>NaN\<close> if one of them is, else the smaller. The product
  \<^verbatim>\<open>delay * backoffFactor\<close> is rounded to a double by the platform (and is an infinity or
  \<^verbatim>\<open>NaN\<close> for some arguments); it is the parameter \<open>product\<close> of the loop.
\<close>

fun number_le :: "number \<Rightarrow> number \<Rightarrow> bool" where
  "number_le (Finite p) (Finite q) = (p \<le> q)"
| "number_le NegInfinity b = (b \<noteq> NaN)"
| "number_le a PosInfinity = (a \<noteq> NaN)"
| "number_le a b = False"

definition Math_min :: "number \<Rightarrow> number \<Rightarrow> number" where
  "Math_min a b = (if a = NaN \<or> b = NaN then NaN else if number_le a b then a else b)"

partial_function (option) backoff_loop ::
  "(number \<Rightarrow> number \<Rightarrow> number) \<Rightarrow> (nat \<Rightarrow> outcome) \<Rightarrow> number \<Rightarrow> number \<Rightarrow> number \<Rightarrow>
   (nat \<Rightarrow> jsval \<Rightarrow> number \<Rightarrow> jsval option) \<Rightarrow> number \<Rightarrow> nat \<Rightarrow> retried \<Rightarrow> retried option" where
  "backoff_loop product fn maxAttempts maxDelay backoffFactor onRetry delay attempt st =
     (if at_most attempt maxAttempts then
        (case fn (invocations st) of
           Success result \<Rightarrow>
             Some (st\<lparr>invocations := Suc (invocations st), returned := Fulfilled result\<rparr>)
         | Failure error \<Rightarrow>
             if strictly_equal attempt maxAttempts then
               Some (st\<lparr>invocations := Suc (invocations st), returned := Rejected error\<rparr>)
             else
               (case onRetry attempt error delay of
                  Some e \<Rightarrow>
                    Some (st\<lparr>invocations := Suc (invocations st),
                             retries := retries st @ [(attempt, error, delay)],
                             returned := Rejected e\<rparr>)
                | None \<Rightarrow>
                    backoff_loop product fn maxAttempts maxDelay backoffFactor onRetry
                      (Math_min (product delay backoffFactor) maxDelay) (increment attempt)
                      (st\<lparr>invocations := Suc (invocations st),
                          retries := retries st @ [(attempt, error, delay)],
                          waits := waits st @ [delay]\<rparr>)))
      else Some (st\<lparr>returned := Fulfilled Undefined\<rparr>))"

definition retryWithBackoff ::
  "(number \<Rightarrow> number \<Rightarrow> number) \<Rightarrow> (nat \<Rightarrow> outcome) \<Rightarrow> options \<Rightarrow> retried option" where
  "retryWithBackoff product fn options =
     backoff_loop product fn
       (or_default (Finite 3) (opt_maxAttempts options))
       (or_default (Finite 30000) (opt_maxDelay options))
       (or_default (Finite 2) (opt_backoffFactor options))
       (or_default (\<lambda>attempt error delay. None) (opt_onRetry options))
       (or_default (Finite 1000) (opt_initialDelay options))
       1 retried_init"

text \<open>
  The parameters of the examples. The examples print whole numbers up to \<open>2\<^sup>5\<^sup>3\<close> only, so
  the conversion of the other numbers is not called in them (\<open>not_printed\<close>), and they
  multiply whole numbers whose product is a whole number below \<open>2\<^sup>5\<^sup>3\<close>, which the platform
  computes without rounding (\<open>exact_product\<close>).
\<close>

definition not_printed :: "rat \<Rightarrow> string" where
  "not_printed q = []"

definition exact_product :: "number \<Rightarrow> number \<Rightarrow> number" where
  "exact_product a b =
     (case a of
        Finite p \<Rightarrow> (case b of Finite q \<Rightarrow> Finite (p * q) | _ \<Rightarrow> NaN)
      | _ \<Rightarrow> NaN)"

section \<open>Notions used in the properties\<close>

subsection \<open>MyPromise\<close>

text \<open>
  The continuation whose outcome settles \<open>t\<close> is, at any time, in one of three places:
  registered on a pending instance, waiting in the timer queue, or already called. \<open>occ\<close>
  counts the places. A pending instance holds one closure for each case of every
  continuation, so only the fulfilment list is counted, and \<open>paired\<close> says that the
  rejection list names the same continuations.
\<close>

fun cb_target :: "callback \<Rightarrow> nat" where
  "cb_target (Callback h t) = t"

fun task_target :: "task \<Rightarrow> nat" where
  "task_target (Task p k h t) = t"

fun task_key :: "task \<Rightarrow> nat \<times> kind \<times> nat" where
  "task_key (Task p k h t) = (p, k, t)"




definition state_of :: "kind \<Rightarrow> pstate" where
  "state_of k = (case k of OnFulfilled \<Rightarrow> fulfilled | OnRejected \<Rightarrow> rejected)"

definition settled_as :: "machine \<Rightarrow> nat \<Rightarrow> kind \<Rightarrow> bool" where
  "settled_as m p k = (p < length (heap m) \<and> pstate (heap m ! p) = state_of k)"

text \<open>A timer callback belongs to an instance that has settled the matching way.\<close>

definition task_ok :: "machine \<Rightarrow> task \<Rightarrow> bool" where
  "task_ok m x = (case x of Task p k h t \<Rightarrow> settled_as m p k)"






text \<open>\<open>keeps m m'\<close>: every instance that has settled in \<open>m\<close> is the same in \<open>m'\<close>.\<close>

definition keeps :: "machine \<Rightarrow> machine \<Rightarrow> bool" where
  "keeps m m' = (length (heap m) \<le> length (heap m') \<and>
     (\<forall>q < length (heap m). pstate (heap m ! q) \<noteq> pending \<longrightarrow> heap m' ! q = heap m ! q))"

text \<open>
  Adoption. \<open>touches q h\<close>: the handler \<open>h\<close> is the \<^verbatim>\<open>resolve\<close> or the \<^verbatim>\<open>reject\<close> of the
  instance \<open>q\<close>. A timer callback or a registered closure is free of \<open>p2\<close> when it neither
  settles \<open>p2\<close> from the outcome of its handler nor has a handler that touches \<open>p2\<close>.
\<close>

fun cb_handler :: "callback \<Rightarrow> handler" where
  "cb_handler (Callback h t) = h"

fun task_handler :: "task \<Rightarrow> handler" where
  "task_handler (Task p k h t) = h"

fun task_link :: "task \<Rightarrow> nat \<times> kind \<times> handler" where
  "task_link (Task p k h t) = (p, k, h)"

definition touches :: "nat \<Rightarrow> handler \<Rightarrow> bool" where
  "touches q h = (h = ResolveOf q \<or> h = RejectOf q)"

definition free_task :: "nat \<Rightarrow> task \<Rightarrow> bool" where
  "free_task p2 t = (task_target t \<noteq> p2 \<and> \<not> touches p2 (task_handler t))"

definition free_cb :: "nat \<Rightarrow> callback \<Rightarrow> bool" where
  "free_cb p2 cb = (cb_target cb \<noteq> p2 \<and> \<not> touches p2 (cb_handler cb))"

text \<open>
  The two closures that \<^verbatim>\<open>x.then(resolve, reject)\<close> of \<^verbatim>\<open>resolvePromise(promise2, x, ...)\<close>
  registers on \<open>x\<close>, and the timer callbacks they become.
\<close>

definition link_task :: "nat \<Rightarrow> nat \<Rightarrow> task \<Rightarrow> bool" where
  "link_task p2 x t =
     (task_target t \<noteq> p2 \<and>
      (task_link t = (x, OnFulfilled, ResolveOf p2) \<or>
       task_link t = (x, OnRejected, RejectOf p2)))"

definition link_cb :: "nat \<Rightarrow> handler \<Rightarrow> callback \<Rightarrow> bool" where
  "link_cb p2 h cb = (cb_target cb \<noteq> p2 \<and> cb_handler cb = h)"

text \<open>
  \<open>guarded m p2 x\<close>: \<open>p2\<close> is pending, and it can only be settled through the closures
  registered on \<open>x\<close>. \<open>linked m p2 x\<close>: these closures are registered while \<open>x\<close> is pending,
  and the matching timer callback is in the queue once \<open>x\<close> has settled.
\<close>

definition guarded :: "machine \<Rightarrow> nat \<Rightarrow> nat \<Rightarrow> bool" where
  "guarded m p2 x =
     (p2 < length (heap m) \<and> x < length (heap m) \<and> x \<noteq> p2 \<and>
      pstate (heap m ! p2) = pending \<and>
      (\<forall>t \<in> set (timers m). task_ok m t \<and> (free_task p2 t \<or> link_task p2 x t)) \<and>
      (\<forall>q < length (heap m). pstate (heap m ! q) = pending \<longrightarrow>
         (\<forall>cb \<in> set (onFulfilledCallbacks (heap m ! q)).
            free_cb p2 cb \<or> q = x \<and> link_cb p2 (ResolveOf p2) cb) \<and>
         (\<forall>cb \<in> set (onRejectedCallbacks (heap m ! q)).
            free_cb p2 cb \<or> q = x \<and> link_cb p2 (RejectOf p2) cb)))"

definition linked :: "machine \<Rightarrow> nat \<Rightarrow> nat \<Rightarrow> bool" where
  "linked m p2 x =
     (case pstate (heap m ! x) of
        pending \<Rightarrow>
          ResolveOf p2 \<in> cb_handler ` set (onFulfilledCallbacks (heap m ! x)) \<and>
          RejectOf p2 \<in> cb_handler ` set (onRejectedCallbacks (heap m ! x))
      | fulfilled \<Rightarrow> (x, OnFulfilled, ResolveOf p2) \<in> task_link ` set (timers m)
      | rejected \<Rightarrow> (x, OnRejected, RejectOf p2) \<in> task_link ` set (timers m))"

definition adopting :: "machine \<Rightarrow> nat \<Rightarrow> nat \<Rightarrow> bool" where
  "adopting m p2 x = (guarded m p2 x \<and> linked m p2 x)"

text \<open>\<open>adopted m p2 x\<close>: \<open>x\<close> has settled and \<open>p2\<close> has settled the same way.\<close>

definition adopted :: "machine \<Rightarrow> nat \<Rightarrow> nat \<Rightarrow> bool" where
  "adopted m p2 x =
     (p2 < length (heap m) \<and> x < length (heap m) \<and> pstate (heap m ! x) \<noteq> pending \<and>
      pstate (heap m ! p2) \<noteq> pending \<and>
      outcome_of (heap m ! p2) = outcome_of (heap m ! x))"

definition follows :: "machine \<Rightarrow> nat \<Rightarrow> nat \<Rightarrow> bool" where
  "follows m p2 x = (adopting m p2 x \<or> adopted m p2 x)"

text \<open>
  A step of the caller avoids \<open>p2\<close> when it does not use the \<^verbatim>\<open>resolve\<close> or \<^verbatim>\<open>reject\<close> of
  \<open>p2\<close>. For the promise that \<^verbatim>\<open>then\<close> returns these two functions exist only inside
  \<^verbatim>\<open>then\<close>, so a caller has no other steps.
\<close>

fun avoids :: "nat \<Rightarrow> op \<Rightarrow> bool" where
  "avoids p2 (New as) = True"
| "avoids p2 (Resolve q v) = (q \<noteq> p2)"
| "avoids p2 (Reject q r) = (q \<noteq> p2)"
| "avoids p2 (Then q f g) =
     (\<not> touches p2 (handler_or (Fn Return) f) \<and> \<not> touches p2 (handler_or (Fn Throw) g))"
| "avoids p2 Tick = True"

text \<open>
  \<open>sealed m p2\<close>: the situation in which the timer callback of the continuation with
  \<^verbatim>\<open>promise2 = p2\<close> comes to run. \<open>p2\<close> is pending, and no other timer callback and no
  closure registered on a pending instance has \<open>p2\<close> as its \<^verbatim>\<open>promise2\<close> or holds the
  \<^verbatim>\<open>resolve\<close> or \<^verbatim>\<open>reject\<close> of \<open>p2\<close>.
\<close>

definition sealed :: "machine \<Rightarrow> nat \<Rightarrow> bool" where
  "sealed m p2 =
     (p2 < length (heap m) \<and> pstate (heap m ! p2) = pending \<and>
      (\<forall>t \<in> set (tl (timers m)). task_ok m t \<and> free_task p2 t) \<and>
      (\<forall>q < length (heap m). pstate (heap m ! q) = pending \<longrightarrow>
         (\<forall>cb \<in> set (onFulfilledCallbacks (heap m ! q)). free_cb p2 cb) \<and>
         (\<forall>cb \<in> set (onRejectedCallbacks (heap m ! q)). free_cb p2 cb)))"

text \<open>
  \<^verbatim>\<open>const inner = new MyPromise(...); const outer = fulfilled.then(() => inner);\<close>
\<close>

definition returns_future :: "op list" where
  "returns_future =
     [New [], New [CallResolve (Num 5)], Then 1 (Some (Fn (\<lambda>v. Return (Ref 0)))) None]"



definition registered_first :: "op list" where
  "registered_first = [New [], Then 0 (Some (Fn (\<lambda>v. Return v))) None]"

definition returns_itself :: "op list" where
  "returns_itself = [New [CallResolve (Num 1)], Then 0 (Some (Fn (\<lambda>v. Return (Ref 1)))) None]"

text \<open>
  \<^verbatim>\<open>const A = p.then(() => B); const B = q.then(() => A);\<close> for two fulfilled instances
  \<open>p\<close> and \<open>q\<close>, followed by four turns of the event loop.
\<close>

definition cyclic_chain :: "op list" where
  "cyclic_chain =
     [New [CallResolve (Num 1)], New [CallResolve (Num 2)],
      Then 0 (Some (Fn (\<lambda>v. Return (Ref 3)))) None,
      Then 1 (Some (Fn (\<lambda>v. Return (Ref 2)))) None,
      Tick, Tick, Tick, Tick]"

text \<open>
  \<^verbatim>\<open>const inner = new MyPromise(...); const outer = new MyPromise(resolve => resolve(inner));\<close>
  and then the inner instance rejects.
\<close>

definition settled_with_future :: "op list" where
  "settled_with_future = [New [], New [CallResolve (Ref 0)], Reject 0 (Str ''no''), Tick]"

subsection \<open>The worker pools\<close>

text \<open>
  A worker that is suspended at its \<^verbatim>\<open>await\<close> has started a task that has not settled;
  \<open>in_flight\<close> counts these workers, and \<open>unsettled\<close> lists, from the traces, the tasks that
  were started and have not settled.
\<close>

fun is_awaiting :: "worker \<Rightarrow> bool" where
  "is_awaiting (Awaiting i) = True"
| "is_awaiting w = False"

definition in_flight :: "'z pool_scheme \<Rightarrow> nat" where
  "in_flight st = length (filter is_awaiting (workers st))"

definition unsettled :: "'z pool_scheme \<Rightarrow> nat list" where
  "unsettled st = filter (\<lambda>i. i \<notin> set (settled st)) (started st)"

text \<open>
  What holds of the cursor, the workers and the traces in every state of a pool of \<open>n\<close>
  tasks: the results array has \<open>n\<close> slots; the cursor has not passed the end; the indices
  were claimed in order; an index below the cursor is awaited by one worker or has
  settled once, never both, and no other index is awaited or has settled; and a worker
  has returned only if the cursor is at the end.
\<close>

definition core :: "nat \<Rightarrow> 'z pool_scheme \<Rightarrow> bool" where
  "core n st =
     (length (results st) = n \<and> iterator st \<le> n \<and> started st = [0..<iterator st] \<and>
      in_flight st + length (settled st) = iterator st \<and>
      (\<forall>i. count_list (workers st) (Awaiting i) + count_list (settled st) i
             = (if i < iterator st then 1 else 0)) \<and>
      (Returned \<in> set (workers st) \<longrightarrow> iterator st = n))"

text \<open>
  The steps of a worker. \<open>spawn_step\<close> starts one; after its awaited promise has settled
  the worker takes the next entry (\<open>advance\<close>), or the \<^verbatim>\<open>await\<close> throws out of it (\<open>die\<close>).
\<close>

definition spawn_step :: "nat \<Rightarrow> 'z pool_scheme \<Rightarrow> 'z pool_scheme" where
  "spawn_step n st = (case next_entry n st of (w, st') \<Rightarrow> st'\<lparr>workers := workers st' @ [w]\<rparr>)"

definition advance :: "nat \<Rightarrow> nat \<Rightarrow> 'z pool_scheme \<Rightarrow> 'z pool_scheme" where
  "advance n w st =
     (case next_entry n st of (w', st') \<Rightarrow> st'\<lparr>workers := (workers st')[w := w']\<rparr>)"

definition die :: "nat \<Rightarrow> nat \<Rightarrow> jsval \<Rightarrow> 'z pool_scheme \<Rightarrow> 'z pool_scheme" where
  "die w i e st = st\<lparr>settled := settled st @ [i], workers := (workers st)[w := Thrown e]\<rparr>"

text \<open>
  The promise of the call agrees with the workers (\<open>promise_ok\<close>): it is pending while no
  worker has thrown and some worker has not returned, it has fulfilled with the results
  only if every worker has returned, and it has rejected only with an error that a worker
  has thrown. \<open>promise_pre\<close> is what is known of it after a step of a worker and before
  \<open>await_all\<close>.
\<close>

definition all_returned :: "worker list \<Rightarrow> bool" where
  "all_returned ws = list_all (\<lambda>w. w = Returned) ws"

definition promise_ok :: "'z pool_scheme \<Rightarrow> bool" where
  "promise_ok st =
     (case promise st of
        Pending \<Rightarrow> first_thrown (workers st) = None \<and> \<not> all_returned (workers st)
      | Fulfilled rs \<Rightarrow> rs = results st \<and> all_returned (workers st)
      | Rejected e \<Rightarrow> Thrown e \<in> set (workers st))"

definition promise_pre :: "'z pool_scheme \<Rightarrow> bool" where
  "promise_pre st =
     (case promise st of
        Pending \<Rightarrow> True
      | Fulfilled rs \<Rightarrow> rs = results st \<and> all_returned (workers st)
      | Rejected e \<Rightarrow> Thrown e \<in> set (workers st))"

text \<open>How a task has settled.\<close>

fun succeeded :: "outcome \<Rightarrow> bool" where
  "succeeded (Success v) = True"
| "succeeded (Failure e) = False"

fun value_of :: "outcome \<Rightarrow> jsval option" where
  "value_of (Success v) = Some v"
| "value_of (Failure e) = None"

text \<open>
  The invariant of \<^verbatim>\<open>mapLimitOptimized\<close>, for the tasks \<open>f 0, \<dots>, f (n - 1)\<close>: a slot was
  written when its task fulfilled, and then holds its value; the slot of a task that is
  running or has rejected is empty; and the workers that have thrown are those whose
  task rejected.
\<close>

definition map_inv :: "(nat \<Rightarrow> outcome) \<Rightarrow> nat \<Rightarrow> pool \<Rightarrow> bool" where
  "map_inv f n st =
     (core n st \<and> promise_ok st \<and>
      written st = filter (\<lambda>i. succeeded (f i)) (settled st) \<and>
      (\<forall>i<n. results st ! i = (if i \<in> set (settled st) then value_of (f i) else None)) \<and>
      (\<forall>i \<in> set (settled st). \<forall>e. f i = Failure e \<longrightarrow> Thrown e \<in> set (workers st)) \<and>
      (\<forall>e. Thrown e \<in> set (workers st) \<longrightarrow> (\<exists>i \<in> set (settled st). f i = Failure e)))"

text \<open>
  The invariant of \<^verbatim>\<open>parallelLimitOptimized\<close>: no worker has returned, a worker that has
  thrown has thrown the \<^verbatim>\<open>ReferenceError\<close>, and some worker has thrown it once a task has
  settled.
\<close>

definition par_inv :: "nat \<Rightarrow> ppool \<Rightarrow> bool" where
  "par_inv n st =
     (core n st \<and> promise_ok st \<and> Returned \<notin> set (workers st) \<and>
      (\<forall>e. Thrown e \<in> set (workers st) \<longrightarrow> e = not_defined ''onProgress'') \<and>
      (settled st \<noteq> [] \<longrightarrow> Thrown (not_defined ''onProgress'') \<in> set (workers st)))"

text \<open>The state of a call before its workers start.\<close>

definition pool0 :: "nat \<Rightarrow> pool" where
  "pool0 n = \<lparr>results = replicate n None, iterator = 0, workers = [], promise = Pending,
              started = [], settled = [], written = []\<rparr>"

definition ppool0 :: "nat \<Rightarrow> ppool" where
  "ppool0 n = \<lparr>results = replicate n None, iterator = 0, workers = [], promise = Pending,
               started = [], settled = [], written = [], completed = 0\<rparr>"

subsection \<open>The aggregators\<close>

text \<open>
  The invariant of \<^verbatim>\<open>Promise.myAll\<close>: a reaction has run once for some of the inputs,
  \<^verbatim>\<open>completedCount\<close> counts those that fulfilled, and the promise is pending while no input
  has rejected and some reaction has not run.
\<close>

definition all_inv :: "outcome list \<Rightarrow> all_state \<Rightarrow> bool" where
  "all_inv ps st =
     (distinct (all_ran st) \<and> set (all_ran st) \<subseteq> {0..<length ps} \<and>
      completedCount st = length (filter (\<lambda>k. succeeded (ps ! k)) (all_ran st)) \<and>
      ((\<forall>k \<in> set (all_ran st). succeeded (ps ! k)) \<and> length (all_ran st) < length ps
         \<longrightarrow> all_promise st = Pending))"

text \<open>
  The invariant of \<^verbatim>\<open>Promise.myAllSettled\<close>: \<^verbatim>\<open>settledCount\<close> counts the inputs whose
  reaction has run, the slot of each of them holds its record and lies within the array,
  and the promise has fulfilled with the array exactly when the count has reached the
  number of inputs.
\<close>

definition settled_inv :: "outcome list \<Rightarrow> settled_state \<Rightarrow> bool" where
  "settled_inv ps st =
     (settledCount st = length (settled_ran st) \<and> distinct (settled_ran st) \<and>
      set (settled_ran st) \<subseteq> {0..<length ps} \<and>
      length (settled_results st) \<le> length ps \<and>
      (\<forall>i \<in> set (settled_ran st). i < length (settled_results st)) \<and>
      (\<forall>i<length (settled_results st).
         settled_results st ! i
           = (if i \<in> set (settled_ran st) then Some (settled_record (ps ! i)) else None)) \<and>
      settled_promise st
        = (if settledCount st = length ps then Fulfilled (settled_results st) else Pending))"

section \<open>Properties of MyPromise\<close>

subsection \<open>The invariant\<close>


lemma task_target_schedule [simp]: "task_target (schedule p k cb) = cb_target cb"
  by (cases cb) (simp add: schedule_def)




lemma state_of_simps [simp]:
  "state_of k \<noteq> pending" "pending \<noteq> state_of k"
  "state_of OnFulfilled = fulfilled" "state_of OnRejected = rejected"
  "(state_of k = fulfilled) = (k = OnFulfilled)" "(state_of k = rejected) = (k = OnRejected)"
  "(fulfilled = state_of k) = (k = OnFulfilled)" "(rejected = state_of k) = (k = OnRejected)"
  by (cases k; simp add: state_of_def)+

lemma task_key_schedule [simp]: "task_key (schedule p k cb) = (p, k, cb_target cb)"
  by (cases cb) (simp add: schedule_def)



lemma settled_as_resolve: "settled_as m q k \<Longrightarrow> settled_as (resolve p v m) q k"
  by (auto simp: settled_as_def resolve_def nth_list_update)

lemma settled_as_reject: "settled_as m q k \<Longrightarrow> settled_as (reject p v m) q k"
  by (auto simp: settled_as_def reject_def nth_list_update)



lemma task_ok_resolve: "task_ok m x \<Longrightarrow> task_ok (resolve p v m) x"
  by (auto simp: task_ok_def settled_as_resolve split: task.splits)

lemma task_ok_reject: "task_ok m x \<Longrightarrow> task_ok (reject p v m) x"
  by (auto simp: task_ok_def settled_as_reject split: task.splits)









lemma traces_resolve [simp]:
  "calls (resolve p v m) = calls m" "thens (resolve p v m) = thens m"
  "length (heap (resolve p v m)) = length (heap m)"
  by (simp_all add: resolve_def)

lemma traces_reject [simp]:
  "calls (reject p v m) = calls m" "thens (reject p v m) = thens m"
  "length (heap (reject p v m)) = length (heap m)"
  by (simp_all add: reject_def)










lemma then_length [simp]:
  "length (heap (snd (MyPromise_then p f g m))) = Suc (length (heap m))"
  by (simp add: MyPromise_then_def Let_def split: pstate.splits)

lemma then_traces [simp]:
  "calls (snd (MyPromise_then p f g m)) = calls m"
  "thens (snd (MyPromise_then p f g m)) = thens m @ [(p, length (heap m))]"
  by (simp_all add: MyPromise_then_def Let_def split: pstate.splits)

lemma then_timers:
  "p < length (heap m) \<Longrightarrow>
   timers (snd (MyPromise_then p f g m)) = timers m @
     (case pstate (heap m ! p) of
        pending \<Rightarrow> []
      | fulfilled \<Rightarrow> [Task p OnFulfilled (handler_or (Fn Return) f) (length (heap m))]
      | rejected \<Rightarrow> [Task p OnRejected (handler_or (Fn Throw) g) (length (heap m))])"
  by (simp add: MyPromise_then_def Let_def nth_append split: pstate.splits)

lemma then_fields:
  assumes "p < length (heap m)" "q < length (heap m)"
  shows "pstate (heap (snd (MyPromise_then p f g m)) ! q) = pstate (heap m ! q)"
    and "pvalue (heap (snd (MyPromise_then p f g m)) ! q) = pvalue (heap m ! q)"
    and "preason (heap (snd (MyPromise_then p f g m)) ! q) = preason (heap m ! q)"
    and "onFulfilledCallbacks (heap (snd (MyPromise_then p f g m)) ! q)
           = onFulfilledCallbacks (heap m ! q) @
             (if q = p \<and> pstate (heap m ! p) = pending
              then [Callback (handler_or (Fn Return) f) (length (heap m))] else [])"
    and "onRejectedCallbacks (heap (snd (MyPromise_then p f g m)) ! q)
           = onRejectedCallbacks (heap m ! q) @
             (if q = p \<and> pstate (heap m ! p) = pending
              then [Callback (handler_or (Fn Throw) g) (length (heap m))] else [])"
  using assms
  by (auto simp: MyPromise_then_def Let_def nth_append nth_list_update
      split: pstate.splits)

lemma then_new:
  "p < length (heap m) \<Longrightarrow> heap (snd (MyPromise_then p f g m)) ! length (heap m) = fresh"
  by (auto simp: MyPromise_then_def Let_def nth_append nth_list_update split: pstate.splits)

lemma settled_as_then:
  "p < length (heap m) \<Longrightarrow> settled_as m q k \<Longrightarrow> settled_as (snd (MyPromise_then p f g m)) q k"
  by (simp add: settled_as_def then_fields)

lemma task_ok_then:
  "p < length (heap m) \<Longrightarrow> task_ok m x \<Longrightarrow> task_ok (snd (MyPromise_then p f g m)) x"
  by (auto simp: task_ok_def settled_as_then split: task.splits)













lemma count_le_distinct: "(\<And>x. count_list xs x \<le> 1) \<Longrightarrow> distinct xs"
proof (induction xs)
  case Nil
  then show ?case by simp
next
  case (Cons a xs)
  have "count_list xs x \<le> 1" for x using Cons.prems[of x] by (simp split: if_splits)
  then have "distinct xs" by (rule Cons.IH)
  moreover have "a \<notin> set xs"
  proof
    assume "a \<in> set xs"
    then have "0 < count_list xs a" by (metis count_list_0_iff gr0I)
    with Cons.prems[of a] show False by simp
  qed
  ultimately show ?case by simp
qed



lemma keeps_refl: "keeps m m"
  by (simp add: keeps_def)

lemma keeps_trans: "keeps a b \<Longrightarrow> keeps b c \<Longrightarrow> keeps a c"
  by (auto simp: keeps_def)

lemma keeps_resolve: "keeps m (resolve p v m)"
  by (auto simp: keeps_def resolve_def nth_list_update)

lemma keeps_reject: "keeps m (reject p v m)"
  by (auto simp: keeps_def reject_def nth_list_update)

lemma keeps_then: "p < length (heap m) \<Longrightarrow> keeps m (snd (MyPromise_then p f g m))"
  by (auto simp: keeps_def MyPromise_then_def Let_def nth_append nth_list_update split: pstate.splits)

lemma keeps_executor: "keeps m (executor p as m)"
  by (induction p as m rule: executor.induct)
     (auto intro: keeps_refl keeps_reject keeps_trans[OF keeps_resolve] keeps_trans[OF keeps_reject])

lemma keeps_new: "keeps m (snd (new_MyPromise as m))"
proof -
  have "keeps m (m\<lparr>heap := heap m @ [fresh]\<rparr>)" by (simp add: keeps_def nth_append)
  then show ?thesis
    by (auto simp: new_MyPromise_def Let_def intro: keeps_trans keeps_executor)
qed

lemma keeps_resolvePromise: "keeps m (resolvePromise t x m)"
  by (auto simp: resolvePromise_def keeps_resolve keeps_reject keeps_then keeps_refl
      instanceof_MyPromise_def split: jsval.splits)

lemma keeps_call_handler: "keeps m (snd (call_handler h a m))"
  by (cases h) (simp_all add: keeps_resolve keeps_reject keeps_refl)

lemma keeps_run_task: "keeps m (run_task x m)"
proof -
  obtain p k h t where x: "x = Task p k h t" by (cases x)
  let ?a = "argument k (heap m ! p)"
  let ?m = "m\<lparr>calls := calls m @ [(p, k, t, ?a)]\<rparr>"
  have 1: "keeps m ?m" by (simp add: keeps_def)
  have 2: "keeps ?m (snd (call_handler h ?a ?m))" by (rule keeps_call_handler)
  have "run_task x m =
      (case fst (call_handler h ?a ?m) of
         Return y \<Rightarrow> resolvePromise t y (snd (call_handler h ?a ?m))
       | Throw e \<Rightarrow> reject t e (snd (call_handler h ?a ?m)))"
    using x by (simp add: Let_def split: prod.splits completion.splits)
  then show ?thesis
    using keeps_trans[OF 1 2]
    by (auto split: completion.splits intro: keeps_trans keeps_resolvePromise keeps_reject)
qed

lemma keeps_run_timer: "keeps m (run_timer m)"
proof (cases "timers m")
  case Nil
  then show ?thesis by (simp add: run_timer_def keeps_refl)
next
  case (Cons x ts)
  have "keeps m (m\<lparr>timers := ts\<rparr>)" by (simp add: keeps_def)
  then show ?thesis using Cons keeps_run_task[of "m\<lparr>timers := ts\<rparr>" x]
    by (auto simp: run_timer_def intro: keeps_trans)
qed

lemma keeps_exec: "keeps m (exec op m)"
  by (cases op) (simp_all add: keeps_new keeps_resolve keeps_reject keeps_then keeps_run_timer keeps_refl)



subsection \<open>Single settlement\<close>



lemmas machine_eval =
  run_def empty_machine_def new_MyPromise_def resolve_def reject_def fresh_def
  MyPromise_then_def handler_or_def Let_def run_timer_def resolvePromise_def
  instanceof_MyPromise_def outcome_of_def argument_def schedule_def

lemma calls_executor [simp]: "calls (executor p as m) = calls m"
  by (induction p as m rule: executor.induct) simp_all

lemma calls_new [simp]: "calls (snd (new_MyPromise as m)) = calls m"
  by (simp add: new_MyPromise_def Let_def)

lemma calls_resolvePromise [simp]: "calls (resolvePromise t x m) = calls m"
  by (simp add: resolvePromise_def split: jsval.splits)

lemma calls_call_handler [simp]: "calls (snd (call_handler h a m)) = calls m"
  by (cases h) simp_all

lemma calls_run_task:
  "calls (run_task (Task p k h t) m) = calls m @ [(p, k, t, argument k (heap m ! p))]"
proof -
  let ?a = "argument k (heap m ! p)"
  let ?m = "m\<lparr>calls := calls m @ [(p, k, t, ?a)]\<rparr>"
  have "run_task (Task p k h t) m =
      (case fst (call_handler h ?a ?m) of
         Return y \<Rightarrow> resolvePromise t y (snd (call_handler h ?a ?m))
       | Throw e \<Rightarrow> reject t e (snd (call_handler h ?a ?m)))"
    by (simp add: Let_def split: prod.splits completion.splits)
  then show ?thesis by (simp split: completion.splits)
qed

lemma calls_run_timer:
  "calls (run_timer m) = calls m @
     (case timers m of [] \<Rightarrow> [] | Task p k h t # ts \<Rightarrow> [(p, k, t, argument k (heap m ! p))])"
  by (simp add: run_timer_def calls_run_task del: run_task.simps split: list.splits task.splits)

subsection \<open>Continuations are deferred\<close>

text \<open>
  Claim C4. \<^verbatim>\<open>resolve\<close>, \<^verbatim>\<open>reject\<close> and \<^verbatim>\<open>then\<close> call no handler: the trace of handler
  calls is the same after them. Settling a pending instance appends one timer callback for
  each continuation registered on it, and \<^verbatim>\<open>then\<close> on a settled instance appends the timer
  callback of the new continuation. No step of a program but a turn of the event loop
  calls a handler, and a turn calls exactly the handler of the oldest timer callback, also
  when that handler settles an instance with registered continuations.
\<close>

theorem continuation_deferral:
  "calls (resolve p v m) = calls m \<and>
   calls (reject p r m) = calls m \<and>
   calls (snd (MyPromise_then p f g m)) = calls m \<and>
   (p < length (heap m) \<and> pstate (heap m ! p) = pending \<longrightarrow>
      timers (resolve p v m)
        = timers m @ map (schedule p OnFulfilled) (onFulfilledCallbacks (heap m ! p)) \<and>
      timers (reject p r m)
        = timers m @ map (schedule p OnRejected) (onRejectedCallbacks (heap m ! p))) \<and>
   (p < length (heap m) \<and> pstate (heap m ! p) = fulfilled \<longrightarrow>
      timers (snd (MyPromise_then p f g m))
        = timers m @ [Task p OnFulfilled (handler_or (Fn Return) f) (length (heap m))]) \<and>
   (p < length (heap m) \<and> pstate (heap m ! p) = rejected \<longrightarrow>
      timers (snd (MyPromise_then p f g m))
        = timers m @ [Task p OnRejected (handler_or (Fn Throw) g) (length (heap m))]) \<and>
   (\<forall>op. op \<noteq> Tick \<longrightarrow> calls (exec op m) = calls m) \<and>
   calls (run_timer m) = calls m @
     (case timers m of
        [] \<Rightarrow> []
      | Task q k h t # ts \<Rightarrow> [(q, k, t, argument k (heap m ! q))])"
proof -
  have "calls (exec op m) = calls m" if "op \<noteq> Tick" for op
    using that by (cases op) simp_all
  then show ?thesis
    by (simp add: calls_run_timer then_timers) (simp add: resolve_def reject_def)
qed

theorem continuation_deferral_witness:
  "calls (resolve 0 (Num 1) (run registered_first empty_machine)) = [] \<and>
   timers (resolve 0 (Num 1) (run registered_first empty_machine))
     = [Task 0 OnFulfilled (Fn (\<lambda>v. Return v)) 1] \<and>
   calls (run_timer (resolve 0 (Num 1) (run registered_first empty_machine)))
     = [(0, OnFulfilled, 1, Num 1)]"
proof -
  have a: "0 < length (heap (run registered_first empty_machine))"
    "pstate (heap (run registered_first empty_machine) ! 0) = pending"
    "calls (run registered_first empty_machine) = []"
    "timers (run registered_first empty_machine) = []"
    "onFulfilledCallbacks (heap (run registered_first empty_machine) ! 0)
       = [Callback (Fn (\<lambda>v. Return v)) 1]"
    by (simp_all add: registered_first_def machine_eval)
  have b: "argument OnFulfilled (heap (resolve 0 (Num 1) (run registered_first empty_machine)) ! 0) = Num 1"
    by code_simp
  from continuation_deferral[of 0 "Num 1" "run registered_first empty_machine"] a
  have 1: "calls (resolve 0 (Num 1) (run registered_first empty_machine)) = []"
    "timers (resolve 0 (Num 1) (run registered_first empty_machine))
       = [Task 0 OnFulfilled (Fn (\<lambda>v. Return v)) 1]"
    by (simp_all add: schedule_def)
  from continuation_deferral[of 0 "Num 1" "resolve 0 (Num 1) (run registered_first empty_machine)"] 1 b
  have "calls (run_timer (resolve 0 (Num 1) (run registered_first empty_machine)))
     = [(0, OnFulfilled, 1, Num 1)]"
    by simp
  with 1 show ?thesis by simp
qed

subsection \<open>Cycles\<close>

text \<open>
  Claim C3, as amended. When the timer callback of a continuation runs and its handler
  returns \<^verbatim>\<open>promise2\<close> itself, the promise that \<^verbatim>\<open>then\<close> returned for this continuation,
  \<^verbatim>\<open>promise2\<close> is rejected in that turn with the \<^verbatim>\<open>TypeError\<close> "Chaining cycle detected".
\<close>

theorem chaining_cycle_detected:
  assumes "timers m = Task p k (Fn f) p2 # ts"
    and "f (argument k (heap m ! p)) = Return (Ref p2)"
    and "p2 < length (heap m)"
    and "pstate (heap m ! p2) = pending"
  shows "outcome_of (heap (run_timer m) ! p2)
           = Rejected (Err TypeError ''Chaining cycle detected'')"
  using assms
  by (simp add: run_timer_def resolvePromise_def reject_def outcome_of_def)

theorem chaining_cycle_detected_witness:
  "outcome_of (heap (run_timer (run returns_itself empty_machine)) ! 1)
     = Rejected (Err TypeError ''Chaining cycle detected'')"
proof -
  have "timers (run returns_itself empty_machine)
          = Task 0 OnFulfilled (Fn (\<lambda>v. Return (Ref 1))) 1 # []"
    "(\<lambda>v. Return (Ref 1)) (argument OnFulfilled (heap (run returns_itself empty_machine) ! 0))
       = Return (Ref 1)"
    "1 < length (heap (run returns_itself empty_machine))"
    "pstate (heap (run returns_itself empty_machine) ! 1) = pending"
    by (simp_all add: returns_itself_def machine_eval)
  then show ?thesis by (rule chaining_cycle_detected)
qed

text \<open>
  Claim C3 as stated fails for a cycle through two instances: in \<open>cyclic_chain\<close> each of
  the instances 2 and 3 waits for the other, both stay pending, no timer is left, and a
  further turn of the event loop changes nothing.
\<close>

theorem chain_cycle_counterexample:
  "map outcome_of (heap (run cyclic_chain empty_machine))
     = [Fulfilled (Num 1), Fulfilled (Num 2), Pending, Pending, Pending, Pending] \<and>
   onFulfilledCallbacks (heap (run cyclic_chain empty_machine) ! 3) = [Callback (ResolveOf 2) 4] \<and>
   onFulfilledCallbacks (heap (run cyclic_chain empty_machine) ! 2) = [Callback (ResolveOf 3) 5] \<and>
   timers (run cyclic_chain empty_machine) = [] \<and>
   run_timer (run cyclic_chain empty_machine) = run cyclic_chain empty_machine"
  by (simp add: cyclic_chain_def machine_eval)

subsection \<open>Adoption\<close>

text \<open>
  Claim C2 as stated fails for the \<^verbatim>\<open>resolve\<close> that the constructor passes to the executor:
  called with an instance, it fulfils with that instance as the value, whatever the
  instance does later.
\<close>

theorem constructor_resolve_counterexample:
  "map outcome_of (heap (run settled_with_future empty_machine))
     = [Rejected (Str ''no''), Fulfilled (Ref 0)] \<and>
   timers (run settled_with_future empty_machine) = []"
  by code_simp

lemma guardedI:
  assumes "p2 < length (heap m)" "x < length (heap m)" "x \<noteq> p2" "pstate (heap m ! p2) = pending"
    and "\<And>t. t \<in> set (timers m) \<Longrightarrow> task_ok m t"
    and "\<And>t. t \<in> set (timers m) \<Longrightarrow> free_task p2 t \<or> link_task p2 x t"
    and "\<And>q cb. q < length (heap m) \<Longrightarrow> pstate (heap m ! q) = pending \<Longrightarrow>
           cb \<in> set (onFulfilledCallbacks (heap m ! q)) \<Longrightarrow>
           free_cb p2 cb \<or> q = x \<and> link_cb p2 (ResolveOf p2) cb"
    and "\<And>q cb. q < length (heap m) \<Longrightarrow> pstate (heap m ! q) = pending \<Longrightarrow>
           cb \<in> set (onRejectedCallbacks (heap m ! q)) \<Longrightarrow>
           free_cb p2 cb \<or> q = x \<and> link_cb p2 (RejectOf p2) cb"
  shows "guarded m p2 x"
  unfolding guarded_def using assms by blast

lemma guardedD:
  assumes "guarded m p2 x"
  shows "p2 < length (heap m)" "x < length (heap m)" "x \<noteq> p2" "pstate (heap m ! p2) = pending"
    and "\<And>t. t \<in> set (timers m) \<Longrightarrow> task_ok m t"
    and "\<And>t. t \<in> set (timers m) \<Longrightarrow> free_task p2 t \<or> link_task p2 x t"
    and "\<And>q cb. q < length (heap m) \<Longrightarrow> pstate (heap m ! q) = pending \<Longrightarrow>
           cb \<in> set (onFulfilledCallbacks (heap m ! q)) \<Longrightarrow>
           free_cb p2 cb \<or> q = x \<and> link_cb p2 (ResolveOf p2) cb"
    and "\<And>q cb. q < length (heap m) \<Longrightarrow> pstate (heap m ! q) = pending \<Longrightarrow>
           cb \<in> set (onRejectedCallbacks (heap m ! q)) \<Longrightarrow>
           free_cb p2 cb \<or> q = x \<and> link_cb p2 (RejectOf p2) cb"
  using assms unfolding guarded_def by blast+

lemma task_link_schedule [simp]: "task_link (schedule p k cb) = (p, k, cb_handler cb)"
  by (cases cb) (simp add: schedule_def)

lemma task_handler_schedule [simp]: "task_handler (schedule p k cb) = cb_handler cb"
  by (cases cb) (simp add: schedule_def)

lemma task_ok_schedule [simp]: "task_ok m (schedule p k cb) = settled_as m p k"
  by (cases cb) (simp add: task_ok_def schedule_def)

lemma free_task_schedule [simp]: "free_task p2 (schedule p k cb) = free_cb p2 cb"
  by (simp add: free_task_def free_cb_def)

lemma adopted_keeps: "adopted m p2 x \<Longrightarrow> keeps m m' \<Longrightarrow> adopted m' p2 x"
  by (auto simp: adopted_def keeps_def)

lemma resolve_effect:
  assumes "q < length (heap m)" "pstate (heap m ! q) = pending"
  shows "timers (resolve q v m)
           = timers m @ map (schedule q OnFulfilled) (onFulfilledCallbacks (heap m ! q))"
    and "\<And>r. r < length (heap m) \<Longrightarrow>
           pstate (heap (resolve q v m) ! r) = (if r = q then fulfilled else pstate (heap m ! r))"
    and "\<And>r. r < length (heap m) \<Longrightarrow>
           onFulfilledCallbacks (heap (resolve q v m) ! r) = onFulfilledCallbacks (heap m ! r)"
    and "\<And>r. r < length (heap m) \<Longrightarrow>
           onRejectedCallbacks (heap (resolve q v m) ! r) = onRejectedCallbacks (heap m ! r)"
  using assms by (auto simp: resolve_def nth_list_update)

lemma reject_effect:
  assumes "q < length (heap m)" "pstate (heap m ! q) = pending"
  shows "timers (reject q v m)
           = timers m @ map (schedule q OnRejected) (onRejectedCallbacks (heap m ! q))"
    and "\<And>r. r < length (heap m) \<Longrightarrow>
           pstate (heap (reject q v m) ! r) = (if r = q then rejected else pstate (heap m ! r))"
    and "\<And>r. r < length (heap m) \<Longrightarrow>
           onFulfilledCallbacks (heap (reject q v m) ! r) = onFulfilledCallbacks (heap m ! r)"
    and "\<And>r. r < length (heap m) \<Longrightarrow>
           onRejectedCallbacks (heap (reject q v m) ! r) = onRejectedCallbacks (heap m ! r)"
  using assms by (auto simp: reject_def nth_list_update)

lemma guarded_resolve:
  assumes g: "guarded m p2 x" and "q \<noteq> p2"
  shows "guarded (resolve q v m) p2 x"
proof (cases "q < length (heap m) \<and> pstate (heap m ! q) = pending")
  case False
  then have "resolve q v m = m" by (auto simp: resolve_def)
  with g show ?thesis by simp
next
  case True
  note e = resolve_effect[OF True[THEN conjunct1] True[THEN conjunct2]] and d = guardedD[OF g]
  show ?thesis
  proof (rule guardedI)
    show "p2 < length (heap (resolve q v m))" "x < length (heap (resolve q v m))" "x \<noteq> p2"
      using d(1-3) by simp_all
    show "pstate (heap (resolve q v m) ! p2) = pending"
      using True d(1,4) assms(2) by (simp add: e)
  next
    fix t assume t: "t \<in> set (timers (resolve q v m))"
    show "task_ok (resolve q v m) t"
    proof (cases "t \<in> set (timers m)")
      case True
      then show ?thesis using d(5) by (simp add: task_ok_resolve)
    next
      case False
      with t True show ?thesis by (auto simp: e settled_as_def)
    qed
    show "free_task p2 t \<or> link_task p2 x t"
    proof (cases "t \<in> set (timers m)")
      case True
      then show ?thesis using d(6) by simp
    next
      case False
      with t True obtain cb where cb: "cb \<in> set (onFulfilledCallbacks (heap m ! q))"
        "t = schedule q OnFulfilled cb" by (auto simp: e)
      from d(7)[OF _ _ cb(1)] True have "free_cb p2 cb \<or> q = x \<and> link_cb p2 (ResolveOf p2) cb"
        by simp
      then show ?thesis using cb(2) by (auto simp: link_cb_def link_task_def)
    qed
  next
    fix r cb
    assume r: "r < length (heap (resolve q v m))" "pstate (heap (resolve q v m) ! r) = pending"
    then have r': "r < length (heap m)" "pstate (heap m ! r) = pending"
      using True by (auto simp: e split: if_splits)
    show "free_cb p2 cb \<or> r = x \<and> link_cb p2 (ResolveOf p2) cb"
      if "cb \<in> set (onFulfilledCallbacks (heap (resolve q v m) ! r))"
      using that True r' d(7)[of r cb] by (simp add: e)
    show "free_cb p2 cb \<or> r = x \<and> link_cb p2 (RejectOf p2) cb"
      if "cb \<in> set (onRejectedCallbacks (heap (resolve q v m) ! r))"
      using that True r' d(8)[of r cb] by (simp add: e)
  qed
qed

lemma guarded_reject:
  assumes g: "guarded m p2 x" and "q \<noteq> p2"
  shows "guarded (reject q v m) p2 x"
proof (cases "q < length (heap m) \<and> pstate (heap m ! q) = pending")
  case False
  then have "reject q v m = m" by (auto simp: reject_def)
  with g show ?thesis by simp
next
  case True
  note e = reject_effect[OF True[THEN conjunct1] True[THEN conjunct2]] and d = guardedD[OF g]
  show ?thesis
  proof (rule guardedI)
    show "p2 < length (heap (reject q v m))" "x < length (heap (reject q v m))" "x \<noteq> p2"
      using d(1-3) by simp_all
    show "pstate (heap (reject q v m) ! p2) = pending"
      using True d(1,4) assms(2) by (simp add: e)
  next
    fix t assume t: "t \<in> set (timers (reject q v m))"
    show "task_ok (reject q v m) t"
    proof (cases "t \<in> set (timers m)")
      case True
      then show ?thesis using d(5) by (simp add: task_ok_reject)
    next
      case False
      with t True show ?thesis by (auto simp: e settled_as_def)
    qed
    show "free_task p2 t \<or> link_task p2 x t"
    proof (cases "t \<in> set (timers m)")
      case True
      then show ?thesis using d(6) by simp
    next
      case False
      with t True obtain cb where cb: "cb \<in> set (onRejectedCallbacks (heap m ! q))"
        "t = schedule q OnRejected cb" by (auto simp: e)
      from d(8)[OF _ _ cb(1)] True have "free_cb p2 cb \<or> q = x \<and> link_cb p2 (RejectOf p2) cb"
        by simp
      then show ?thesis using cb(2) by (auto simp: link_cb_def link_task_def)
    qed
  next
    fix r cb
    assume r: "r < length (heap (reject q v m))" "pstate (heap (reject q v m) ! r) = pending"
    then have r': "r < length (heap m)" "pstate (heap m ! r) = pending"
      using True by (auto simp: e split: if_splits)
    show "free_cb p2 cb \<or> r = x \<and> link_cb p2 (ResolveOf p2) cb"
      if "cb \<in> set (onFulfilledCallbacks (heap (reject q v m) ! r))"
      using that True r' d(7)[of r cb] by (simp add: e)
    show "free_cb p2 cb \<or> r = x \<and> link_cb p2 (RejectOf p2) cb"
      if "cb \<in> set (onRejectedCallbacks (heap (reject q v m) ! r))"
      using that True r' d(8)[of r cb] by (simp add: e)
  qed
qed

lemma linked_resolve:
  assumes l: "linked m p2 x" and "x < length (heap m)"
  shows "linked (resolve q v m) p2 x"
proof (cases "q < length (heap m) \<and> pstate (heap m ! q) = pending")
  case False
  then have "resolve q v m = m" by (auto simp: resolve_def)
  with l show ?thesis by simp
next
  case True
  note e = resolve_effect[OF True[THEN conjunct1] True[THEN conjunct2]]
  show ?thesis
  proof (cases "x = q")
    case True
    with l \<open>q < length (heap m) \<and> pstate (heap m ! q) = pending\<close>
    have "ResolveOf p2 \<in> cb_handler ` set (onFulfilledCallbacks (heap m ! q))"
      by (simp add: linked_def)
    then have "(q, OnFulfilled, ResolveOf p2) \<in> task_link ` set (timers (resolve q v m))"
      by (auto simp: e image_iff Bex_def)
    with True assms(2) show ?thesis by (simp add: linked_def e)
  next
    case False
    with l assms(2) show ?thesis
      by (cases "pstate (heap m ! x)") (auto simp: linked_def e)
  qed
qed

lemma linked_reject:
  assumes l: "linked m p2 x" and "x < length (heap m)"
  shows "linked (reject q v m) p2 x"
proof (cases "q < length (heap m) \<and> pstate (heap m ! q) = pending")
  case False
  then have "reject q v m = m" by (auto simp: reject_def)
  with l show ?thesis by simp
next
  case True
  note e = reject_effect[OF True[THEN conjunct1] True[THEN conjunct2]]
  show ?thesis
  proof (cases "x = q")
    case True
    with l \<open>q < length (heap m) \<and> pstate (heap m ! q) = pending\<close>
    have "RejectOf p2 \<in> cb_handler ` set (onRejectedCallbacks (heap m ! q))"
      by (simp add: linked_def)
    then have "(q, OnRejected, RejectOf p2) \<in> task_link ` set (timers (reject q v m))"
      by (auto simp: e image_iff Bex_def)
    with True assms(2) show ?thesis by (simp add: linked_def e)
  next
    case False
    with l assms(2) show ?thesis
      by (cases "pstate (heap m ! x)") (auto simp: linked_def e)
  qed
qed

lemma adopting_resolve: "adopting m p2 x \<Longrightarrow> q \<noteq> p2 \<Longrightarrow> adopting (resolve q v m) p2 x"
  by (auto simp: adopting_def intro: guarded_resolve linked_resolve dest: guardedD(2))

lemma adopting_reject: "adopting m p2 x \<Longrightarrow> q \<noteq> p2 \<Longrightarrow> adopting (reject q v m) p2 x"
  by (auto simp: adopting_def intro: guarded_reject linked_reject dest: guardedD(2))

lemma guarded_then:
  assumes g: "guarded m p2 x" and q: "q < length (heap m)"
    and f: "\<not> touches p2 (handler_or (Fn Return) f)" "\<not> touches p2 (handler_or (Fn Throw) g)"
  shows "guarded (snd (MyPromise_then q f g m)) p2 x"
proof (rule guardedI)
  let ?m = "snd (MyPromise_then q f g m)"
  note d = guardedD[OF g] and tf = then_fields[OF q] and tt = then_timers[OF q]
  show "p2 < length (heap ?m)" "x < length (heap ?m)" "x \<noteq> p2" using d(1-3) by simp_all
  show "pstate (heap ?m ! p2) = pending" using d(1,4) by (simp add: tf)
  have new: "free_task p2 t \<and> task_ok ?m t" if "t \<in> set (timers ?m)" "t \<notin> set (timers m)" for t
    using that f d(1) q
    by (cases "pstate (heap m ! q)")
       (auto simp: tt free_task_def task_ok_def settled_as_def tf)
  show "task_ok ?m t" if "t \<in> set (timers ?m)" for t
    using that new[of t] d(5)[of t] task_ok_then[OF q, of t] by blast
  show "free_task p2 t \<or> link_task p2 x t" if "t \<in> set (timers ?m)" for t
    using that new[of t] d(6)[of t] by blast
  show "free_cb p2 cb \<or> r = x \<and> link_cb p2 (ResolveOf p2) cb"
    if "r < length (heap ?m)" "pstate (heap ?m ! r) = pending"
      "cb \<in> set (onFulfilledCallbacks (heap ?m ! r))" for r cb
  proof (cases "r = length (heap m)")
    case True
    with that q show ?thesis by (simp add: then_new fresh_def)
  next
    case False
    with that(1) have r: "r < length (heap m)" by simp
    with that(2) have pr: "pstate (heap m ! r) = pending" by (simp add: tf)
    from that(3) r have "cb \<in> set (onFulfilledCallbacks (heap m ! r)) \<or>
        cb = Callback (handler_or (Fn Return) f) (length (heap m))"
      by (auto simp: tf split: if_splits)
    then show ?thesis using d(7)[OF r pr] f(1) d(1) by (auto simp: free_cb_def)
  qed
  show "free_cb p2 cb \<or> r = x \<and> link_cb p2 (RejectOf p2) cb"
    if "r < length (heap ?m)" "pstate (heap ?m ! r) = pending"
      "cb \<in> set (onRejectedCallbacks (heap ?m ! r))" for r cb
  proof (cases "r = length (heap m)")
    case True
    with that q show ?thesis by (simp add: then_new fresh_def)
  next
    case False
    with that(1) have r: "r < length (heap m)" by simp
    with that(2) have pr: "pstate (heap m ! r) = pending" by (simp add: tf)
    from that(3) r have "cb \<in> set (onRejectedCallbacks (heap m ! r)) \<or>
        cb = Callback (handler_or (Fn Throw) g) (length (heap m))"
      by (auto simp: tf split: if_splits)
    then show ?thesis using d(8)[OF r pr] f(2) d(1) by (auto simp: free_cb_def)
  qed
qed

lemma linked_then:
  assumes "linked m p2 x" "x < length (heap m)" "q < length (heap m)"
  shows "linked (snd (MyPromise_then q f g m)) p2 x"
  using assms
  by (cases "pstate (heap m ! x)")
     (auto simp: linked_def then_fields then_timers)

lemma adopting_then:
  "adopting m p2 x \<Longrightarrow> q < length (heap m) \<Longrightarrow>
   \<not> touches p2 (handler_or (Fn Return) f) \<Longrightarrow> \<not> touches p2 (handler_or (Fn Throw) g) \<Longrightarrow>
   adopting (snd (MyPromise_then q f g m)) p2 x"
  by (auto simp: adopting_def intro: guarded_then linked_then dest: guardedD(2))

lemma adopting_alloc: "adopting m p2 x \<Longrightarrow> adopting (m\<lparr>heap := heap m @ [fresh]\<rparr>) p2 x"
proof -
  assume a: "adopting m p2 x"
  then have g: "guarded m p2 x" and l: "linked m p2 x" by (simp_all add: adopting_def)
  note d = guardedD[OF g]
  have "guarded (m\<lparr>heap := heap m @ [fresh]\<rparr>) p2 x"
  proof (rule guardedI)
    show "task_ok (m\<lparr>heap := heap m @ [fresh]\<rparr>) t" if "t \<in> set (timers (m\<lparr>heap := heap m @ [fresh]\<rparr>))" for t
      using that d(5)[of t] by (auto simp: task_ok_def settled_as_def nth_append split: task.splits)
    show "free_cb p2 cb \<or> r = x \<and> link_cb p2 (ResolveOf p2) cb"
      if "r < length (heap (m\<lparr>heap := heap m @ [fresh]\<rparr>))"
        "pstate (heap (m\<lparr>heap := heap m @ [fresh]\<rparr>) ! r) = pending"
        "cb \<in> set (onFulfilledCallbacks (heap (m\<lparr>heap := heap m @ [fresh]\<rparr>) ! r))" for r cb
      using that d(7)[of r cb] by (cases "r = length (heap m)") (auto simp: nth_append fresh_def)
    show "free_cb p2 cb \<or> r = x \<and> link_cb p2 (RejectOf p2) cb"
      if "r < length (heap (m\<lparr>heap := heap m @ [fresh]\<rparr>))"
        "pstate (heap (m\<lparr>heap := heap m @ [fresh]\<rparr>) ! r) = pending"
        "cb \<in> set (onRejectedCallbacks (heap (m\<lparr>heap := heap m @ [fresh]\<rparr>) ! r))" for r cb
      using that d(8)[of r cb] by (cases "r = length (heap m)") (auto simp: nth_append fresh_def)
  qed (use d in \<open>auto simp: nth_append\<close>)
  moreover have "linked (m\<lparr>heap := heap m @ [fresh]\<rparr>) p2 x"
    using l d(2) by (auto simp: linked_def nth_append split: pstate.splits)
  ultimately show ?thesis by (simp add: adopting_def)
qed

lemma adopting_executor:
  "adopting m p2 x \<Longrightarrow> q \<noteq> p2 \<Longrightarrow> adopting (executor q as m) p2 x"
  by (induction q as m rule: executor.induct) (simp_all add: adopting_resolve adopting_reject)

lemma adopting_new: "adopting m p2 x \<Longrightarrow> adopting (snd (new_MyPromise as m)) p2 x"
proof -
  assume a: "adopting m p2 x"
  then have "length (heap m) \<noteq> p2" using guardedD(1)[of m p2 x] by (auto simp: adopting_def)
  with adopting_alloc[OF a] show ?thesis
    by (simp add: new_MyPromise_def Let_def adopting_executor)
qed

lemma adopting_resolvePromise:
  assumes "adopting m p2 x" "t \<noteq> p2"
  shows "adopting (resolvePromise t y m) p2 x"
proof -
  have "\<not> touches p2 (handler_or (Fn Return) (Some (ResolveOf t)))"
    "\<not> touches p2 (handler_or (Fn Throw) (Some (RejectOf t)))"
    using assms(2) by (simp_all add: touches_def handler_or_def)
  with assms show ?thesis
    by (auto simp: resolvePromise_def instanceof_MyPromise_def adopting_resolve adopting_reject
        adopting_then split: jsval.splits)
qed

lemma adopting_begin:
  assumes a: "adopting m p2 x" and t: "timers m = t # ts" and f: "free_task p2 t"
  shows "adopting (m\<lparr>timers := ts, calls := c\<rparr>) p2 x"
proof -
  from a have g: "guarded m p2 x" and l: "linked m p2 x" by (simp_all add: adopting_def)
  note d = guardedD[OF g]
  have "guarded (m\<lparr>timers := ts, calls := c\<rparr>) p2 x"
  proof (rule guardedI)
    show "task_ok (m\<lparr>timers := ts, calls := c\<rparr>) u" if "u \<in> set (timers (m\<lparr>timers := ts, calls := c\<rparr>))" for u
      using that d(5)[of u] t by (auto simp: task_ok_def settled_as_def split: task.splits)
    show "free_task p2 u \<or> link_task p2 x u" if "u \<in> set (timers (m\<lparr>timers := ts, calls := c\<rparr>))" for u
      using that d(6)[of u] t by auto
  qed (use d in auto)
  moreover have "task_link t \<noteq> (x, OnFulfilled, ResolveOf p2)" "task_link t \<noteq> (x, OnRejected, RejectOf p2)"
    using f by (cases t; auto simp: free_task_def touches_def)+
  then have "linked (m\<lparr>timers := ts, calls := c\<rparr>) p2 x"
    using l t by (cases "pstate (heap m ! x)") (auto simp: linked_def)
  ultimately show ?thesis by (simp add: adopting_def)
qed

lemma run_timer_unfold:
  "timers m = Task q k h t # ts \<Longrightarrow>
   run_timer m =
     (let m0 = m\<lparr>timers := ts, calls := calls m @ [(q, k, t, argument k (heap m ! q))]\<rparr>;
          r = call_handler h (argument k (heap m ! q)) m0
      in case fst r of
           Return y \<Rightarrow> resolvePromise t y (snd r)
         | Throw e \<Rightarrow> reject t e (snd r))"
  by (simp add: run_timer_def Let_def split: prod.splits completion.splits)

lemma link_task_adopted:
  assumes g: "guarded m p2 x" and t: "timers m = Task q k h t # ts"
    and l: "link_task p2 x (Task q k h t)"
  shows "adopted (snd (call_handler h (argument k (heap m ! q)) (m\<lparr>timers := ts, calls := c\<rparr>))) p2 x"
proof -
  note d = guardedD[OF g]
  have ok: "task_ok m (Task q k h t)" using d(5) t by simp
  from l consider
    (ful) "q = x" "k = OnFulfilled" "h = ResolveOf p2" |
    (rej) "q = x" "k = OnRejected" "h = RejectOf p2"
    by (auto simp: link_task_def)
  then show ?thesis
  proof cases
    case ful
    with ok have "pstate (heap m ! x) = fulfilled" by (simp add: task_ok_def settled_as_def)
    with ful d(1-4) show ?thesis
      by (simp add: adopted_def argument_def resolve_def outcome_of_def nth_list_update)
  next
    case rej
    with ok have "pstate (heap m ! x) = rejected" by (simp add: task_ok_def settled_as_def)
    with rej d(1-4) show ?thesis
      by (simp add: adopted_def argument_def reject_def outcome_of_def nth_list_update)
  qed
qed

lemma follows_run_timer:
  assumes "follows m p2 x"
  shows "follows (run_timer m) p2 x"
proof (cases "adopted m p2 x")
  case True
  then show ?thesis using keeps_run_timer[of m] by (auto simp: follows_def intro: adopted_keeps)
next
  case False
  with assms have a: "adopting m p2 x" by (simp add: follows_def)
  then have g: "guarded m p2 x" by (simp add: adopting_def)
  show ?thesis
  proof (cases "timers m")
    case Nil
    with assms show ?thesis by (simp add: run_timer_def)
  next
    case (Cons t0 ts)
    obtain q k h t where t0: "t0 = Task q k h t" by (cases t0)
    let ?a = "argument k (heap m ! q)"
    let ?b = "m\<lparr>timers := ts, calls := calls m @ [(q, k, t, ?a)]\<rparr>"
    let ?r = "call_handler h ?a ?b"
    have unfold: "run_timer m =
       (case fst ?r of Return y \<Rightarrow> resolvePromise t y (snd ?r) | Throw e \<Rightarrow> reject t e (snd ?r))"
      using Cons t0 by (simp add: run_timer_unfold Let_def)
    have ok: "free_task p2 t0 \<or> link_task p2 x t0"
      using guardedD(6)[OF g, of t0] Cons by simp
    show ?thesis
    proof (cases "free_task p2 t0")
      case True
      then have free: "t \<noteq> p2" "\<not> touches p2 h" using t0 by (simp_all add: free_task_def)
      have "adopting ?b p2 x" using a Cons True by (rule adopting_begin)
      then have "adopting (snd ?r) p2 x" using free(2)
        by (cases h) (auto simp: touches_def adopting_resolve adopting_reject)
      then have "adopting (run_timer m) p2 x"
        using free(1) by (auto simp: unfold adopting_resolvePromise adopting_reject
            split: completion.splits)
      then show ?thesis by (simp add: follows_def)
    next
      case False
      with ok have l: "link_task p2 x (Task q k h t)" using t0 by simp
      have "adopted (snd ?r) p2 x"
        using g Cons[unfolded t0] l by (rule link_task_adopted)
      moreover have "keeps (snd ?r) (run_timer m)"
        by (auto simp: unfold keeps_resolvePromise keeps_reject split: completion.splits)
      ultimately show ?thesis by (auto simp: follows_def intro: adopted_keeps)
    qed
  qed
qed

lemma follows_exec:
  assumes "follows m p2 x" "avoids p2 op"
  shows "follows (exec op m) p2 x"
proof (cases "adopted m p2 x")
  case True
  then show ?thesis using keeps_exec[of m op] by (auto simp: follows_def intro: adopted_keeps)
next
  case False
  with assms have a: "adopting m p2 x" by (simp add: follows_def)
  show ?thesis
  proof (cases op)
    case Tick
    with assms(1) show ?thesis by (simp add: follows_run_timer)
  qed (use a assms(2) in \<open>auto simp: follows_def adopting_new adopting_resolve adopting_reject
        adopting_then\<close>)
qed

lemma follows_run:
  "follows m p2 x \<Longrightarrow> \<forall>op \<in> set ops. avoids p2 op \<Longrightarrow> follows (run ops m) p2 x"
  unfolding run_def by (induction ops arbitrary: m) (simp_all add: follows_exec)

lemma sealed_adopting:
  assumes t: "timers m = Task p k (Fn f) p2 # ts"
    and f: "f (argument k (heap m ! p)) = Return (Ref x)"
    and x: "x < length (heap m)" "x \<noteq> p2"
    and s: "sealed m p2"
  shows "adopting (run_timer m) p2 x"
proof -
  let ?b = "m\<lparr>timers := ts, calls := calls m @ [(p, k, p2, argument k (heap m ! p))]\<rparr>"
  have run: "run_timer m = snd (MyPromise_then x (Some (ResolveOf p2)) (Some (RejectOf p2)) ?b)"
    using t f x
    by (simp add: run_timer_unfold Let_def resolvePromise_def instanceof_MyPromise_def)
  have sd: "p2 < length (heap m)" "pstate (heap m ! p2) = pending"
    "\<And>u. u \<in> set ts \<Longrightarrow> task_ok m u \<and> free_task p2 u"
    "\<And>q cb. q < length (heap m) \<Longrightarrow> pstate (heap m ! q) = pending \<Longrightarrow>
       cb \<in> set (onFulfilledCallbacks (heap m ! q)) \<Longrightarrow> free_cb p2 cb"
    "\<And>q cb. q < length (heap m) \<Longrightarrow> pstate (heap m ! q) = pending \<Longrightarrow>
       cb \<in> set (onRejectedCallbacks (heap m ! q)) \<Longrightarrow> free_cb p2 cb"
    using s t by (auto simp: sealed_def)
  have xb: "x < length (heap ?b)" using x by simp
  note tf = then_fields[OF xb] and tt = then_timers[OF xb] and tn = then_new[OF xb]
  let ?m = "snd (MyPromise_then x (Some (ResolveOf p2)) (Some (RejectOf p2)) ?b)"
  have "guarded ?m p2 x"
  proof (rule guardedI)
    show "p2 < length (heap ?m)" "x < length (heap ?m)" "x \<noteq> p2" using sd(1) x by simp_all
    show "pstate (heap ?m ! p2) = pending" using sd(1,2) by (simp add: tf)
    have old: "task_ok ?m u \<and> free_task p2 u" if "u \<in> set ts" for u
    proof -
      from sd(3)[OF that] have "task_ok ?b u" "free_task p2 u"
        by (auto simp: task_ok_def settled_as_def split: task.splits)
      then show ?thesis using task_ok_then[OF xb, of u] by blast
    qed
    have new: "task_ok ?m u \<and> link_task p2 x u" if "u \<in> set (timers ?m)" "u \<notin> set ts" for u
      using that x sd(1)
      by (cases "pstate (heap m ! x)")
         (auto simp: tt tf handler_or_def task_ok_def settled_as_def link_task_def)
    show "task_ok ?m u" if "u \<in> set (timers ?m)" for u using that old[of u] new[of u] by blast
    show "free_task p2 u \<or> link_task p2 x u" if "u \<in> set (timers ?m)" for u
      using that old[of u] new[of u] by blast
    show "free_cb p2 cb \<or> r = x \<and> link_cb p2 (ResolveOf p2) cb"
      if "r < length (heap ?m)" "pstate (heap ?m ! r) = pending"
        "cb \<in> set (onFulfilledCallbacks (heap ?m ! r))" for r cb
    proof (cases "r = length (heap m)")
      case True
      with that show ?thesis using tn by (simp add: fresh_def)
    next
      case False
      with that(1) have r: "r < length (heap ?b)" by simp
      with that(2) have pr: "pstate (heap m ! r) = pending" by (simp add: tf)
      from that(3) r sd(4)[of r cb] pr sd(1) show ?thesis
        by (auto simp: tf handler_or_def link_cb_def split: if_splits)
    qed
    show "free_cb p2 cb \<or> r = x \<and> link_cb p2 (RejectOf p2) cb"
      if "r < length (heap ?m)" "pstate (heap ?m ! r) = pending"
        "cb \<in> set (onRejectedCallbacks (heap ?m ! r))" for r cb
    proof (cases "r = length (heap m)")
      case True
      with that show ?thesis using tn by (simp add: fresh_def)
    next
      case False
      with that(1) have r: "r < length (heap ?b)" by simp
      with that(2) have pr: "pstate (heap m ! r) = pending" by (simp add: tf)
      from that(3) r sd(5)[of r cb] pr sd(1) show ?thesis
        by (auto simp: tf handler_or_def link_cb_def split: if_splits)
    qed
  qed
  moreover have "linked ?m p2 x"
    using xb by (cases "pstate (heap m ! x)") (auto simp: linked_def tf tt handler_or_def)
  ultimately show ?thesis by (simp add: adopting_def run)
qed

lemma follows_outcome:
  assumes "follows m p2 x"
  shows "(outcome_of (heap m ! p2) = Pending \<or> outcome_of (heap m ! p2) = outcome_of (heap m ! x)) \<and>
         (timers m = [] \<longrightarrow> outcome_of (heap m ! p2) = outcome_of (heap m ! x))"
proof (cases "adopted m p2 x")
  case True
  then show ?thesis by (simp add: adopted_def)
next
  case False
  with assms have "guarded m p2 x" "linked m p2 x" by (simp_all add: follows_def adopting_def)
  then show ?thesis
    by (cases "pstate (heap m ! x)") (auto simp: linked_def outcome_of_def dest: guardedD(4))
qed

text \<open>
  Claim C2, as amended. Let the timer callback of a continuation come to run, with
  \<^verbatim>\<open>promise2 = p2\<close> sealed, and let its handler return another instance \<open>x\<close>. Then, in
  every continuation of the run in which the caller avoids \<open>p2\<close>, \<open>p2\<close> is pending or has
  settled exactly as \<open>x\<close> has: fulfilled with the value of \<open>x\<close> or rejected with the reason
  of \<open>x\<close>; and whenever the timer queue is empty, \<open>p2\<close> is in the state of \<open>x\<close>.
\<close>

theorem adoption_through_then:
  assumes "timers m = Task p k (Fn f) p2 # ts"
    and "f (argument k (heap m ! p)) = Return (Ref x)"
    and "x < length (heap m)" and "x \<noteq> p2"
    and "sealed m p2"
    and "\<forall>op \<in> set ops. avoids p2 op"
  shows "(outcome_of (heap (run ops (run_timer m)) ! p2) = Pending \<or>
          outcome_of (heap (run ops (run_timer m)) ! p2)
            = outcome_of (heap (run ops (run_timer m)) ! x)) \<and>
         (timers (run ops (run_timer m)) = [] \<longrightarrow>
          outcome_of (heap (run ops (run_timer m)) ! p2)
            = outcome_of (heap (run ops (run_timer m)) ! x))"
proof -
  have "adopting (run_timer m) p2 x" using assms(1-5) by (rule sealed_adopting)
  then have "follows (run_timer m) p2 x" by (simp add: follows_def)
  then have "follows (run ops (run_timer m)) p2 x"
    using assms(6) by (rule follows_run)
  then show ?thesis by (rule follows_outcome)
qed

theorem adoption_through_then_witness:
  "outcome_of (heap (run [Tick, Reject 0 (Str ''no''), Tick, Tick]
                       (run_timer (run returns_future empty_machine))) ! 2)
     = Rejected (Str ''no'') \<and>
   outcome_of (heap (run [Resolve 0 (Num 7), Tick]
                       (run_timer (run returns_future empty_machine))) ! 2)
     = Fulfilled (Num 7)"
proof -
  let ?m = "run returns_future empty_machine"
  have h: "timers ?m = Task 1 OnFulfilled (Fn (\<lambda>v. Return (Ref 0))) 2 # []"
    "(\<lambda>v. Return (Ref 0)) (argument OnFulfilled (heap ?m ! 1)) = Return (Ref 0)"
    "0 < length (heap ?m)" "(0::nat) \<noteq> 2"
    by (simp_all add: returns_future_def machine_eval)
  have s: "sealed ?m 2"
    by (simp add: sealed_def returns_future_def machine_eval less_Suc_eq)
  have a: "\<forall>op \<in> set [Tick, Reject 0 (Str ''no''), Tick, Tick]. avoids 2 op"
    "\<forall>op \<in> set [Resolve 0 (Num 7), Tick]. avoids 2 op"
    by simp_all
  have e: "timers (run [Tick, Reject 0 (Str ''no''), Tick, Tick] (run_timer ?m)) = []"
    "outcome_of (heap (run [Tick, Reject 0 (Str ''no''), Tick, Tick] (run_timer ?m)) ! 0)
       = Rejected (Str ''no'')"
    "timers (run [Resolve 0 (Num 7), Tick] (run_timer ?m)) = []"
    "outcome_of (heap (run [Resolve 0 (Num 7), Tick] (run_timer ?m)) ! 0) = Fulfilled (Num 7)"
    by (simp_all add: returns_future_def machine_eval)
  from adoption_through_then[OF h s a(1)] adoption_through_then[OF h s a(2)] e
  show ?thesis by simp
qed

section \<open>Properties of retry and retryWithBackoff\<close>

text \<open>The tests of the loop for a whole number of attempts, and its counter.\<close>

lemma at_most_nat [simp]: "at_most attempt (Finite (of_nat n)) \<longleftrightarrow> attempt \<le> n"
  by (simp add: at_most_def)

lemma strictly_equal_nat [simp]: "strictly_equal attempt (Finite (of_nat n)) \<longleftrightarrow> attempt = n"
  by (auto simp: strictly_equal_def)

lemma increment_below: "attempt < n \<Longrightarrow> n \<le> 2 ^ 53 \<Longrightarrow> increment attempt = Suc attempt"
  by (simp add: increment_def)

lemma increment_bounded: "attempt \<le> 2 ^ 53 \<Longrightarrow> increment attempt \<le> 2 ^ 53"
  by (simp add: increment_def)

lemma backoff_loop_success:
  "at_most attempt maxAttempts \<Longrightarrow> fn (invocations st) = Success v \<Longrightarrow>
   backoff_loop product fn maxAttempts maxDelay backoffFactor onRetry delay attempt st
     = Some (st\<lparr>invocations := Suc (invocations st), returned := Fulfilled v\<rparr>)"
  by (subst backoff_loop.simps) simp

lemma backoff_loop_last:
  "at_most attempt maxAttempts \<Longrightarrow> strictly_equal attempt maxAttempts \<Longrightarrow>
   fn (invocations st) = Failure err \<Longrightarrow>
   backoff_loop product fn maxAttempts maxDelay backoffFactor onRetry delay attempt st
     = Some (st\<lparr>invocations := Suc (invocations st), returned := Rejected err\<rparr>)"
  by (subst backoff_loop.simps) simp

lemma backoff_loop_again:
  "at_most attempt maxAttempts \<Longrightarrow> \<not> strictly_equal attempt maxAttempts \<Longrightarrow>
   fn (invocations st) = Failure err \<Longrightarrow> onRetry attempt err delay = None \<Longrightarrow>
   backoff_loop product fn maxAttempts maxDelay backoffFactor onRetry delay attempt st
     = backoff_loop product fn maxAttempts maxDelay backoffFactor onRetry
         (Math_min (product delay backoffFactor) maxDelay) (increment attempt)
         (st\<lparr>invocations := Suc (invocations st),
             retries := retries st @ [(attempt, err, delay)],
             waits := waits st @ [delay]\<rparr>)"
  by (subst backoff_loop.simps) simp

text \<open>A producer that fails from now on: the loop calls it once for each attempt left.\<close>

lemma backoff_loop_all_fail:
  assumes quiet: "\<And>a err d. onRetry a err d = None" and bound: "n \<le> 2 ^ 53"
  shows "n - attempt = k \<Longrightarrow> attempt \<le> n \<Longrightarrow>
    (\<And>j. invocations st \<le> j \<Longrightarrow> fn j = Failure (e j)) \<Longrightarrow>
    \<exists>st'. backoff_loop product fn (Finite (of_nat n)) maxDelay backoffFactor onRetry delay attempt st
            = Some st' \<and>
          invocations st' = invocations st + k + 1 \<and>
          returned st' = Rejected (e (invocations st + k))"
proof (induction k arbitrary: attempt st delay)
  case 0
  then have "attempt = n" by simp
  then show ?case using "0.prems"(3)[of "invocations st"]
    by (simp add: backoff_loop_last)
next
  case (Suc k)
  then have lt: "attempt < n" by simp
  have f: "fn (invocations st) = Failure (e (invocations st))" using Suc.prems(3) by simp
  let ?st = "st\<lparr>invocations := Suc (invocations st),
             retries := retries st @ [(attempt, e (invocations st), delay)],
             waits := waits st @ [delay]\<rparr>"
  let ?d = "Math_min (product delay backoffFactor) maxDelay"
  have step: "backoff_loop product fn (Finite (of_nat n)) maxDelay backoffFactor onRetry delay attempt st
                = backoff_loop product fn (Finite (of_nat n)) maxDelay backoffFactor onRetry ?d
                    (Suc attempt) ?st"
    using backoff_loop_again[of attempt "Finite (of_nat n)" fn st "e (invocations st)" onRetry
        delay product maxDelay backoffFactor] lt f quiet increment_below[OF lt bound]
    by simp
  have "n - Suc attempt = k" using Suc.prems(1) by simp
  moreover have "Suc attempt \<le> n" using lt by simp
  moreover have "\<And>j. invocations ?st \<le> j \<Longrightarrow> fn j = Failure (e j)"
    using Suc.prems(3) by simp
  ultimately have "\<exists>st'. backoff_loop product fn (Finite (of_nat n)) maxDelay backoffFactor onRetry
                           ?d (Suc attempt) ?st = Some st' \<and>
      invocations st' = invocations ?st + k + 1 \<and>
      returned st' = Rejected (e (invocations ?st + k))"
    by (rule Suc.IH)
  then show ?case by (simp add: step)
qed

text \<open>A producer that fails \<open>k\<close> more times and then succeeds.\<close>

lemma backoff_loop_then_success:
  assumes quiet: "\<And>a err d. onRetry a err d = None" and bound: "n \<le> 2 ^ 53"
  shows "attempt + k \<le> n \<Longrightarrow>
    (\<And>j. j < k \<Longrightarrow> fn (invocations st + j) = Failure (e j)) \<Longrightarrow>
    fn (invocations st + k) = Success v \<Longrightarrow>
    \<exists>st'. backoff_loop product fn (Finite (of_nat n)) maxDelay backoffFactor onRetry delay attempt st
            = Some st' \<and>
          invocations st' = invocations st + k + 1 \<and> returned st' = Fulfilled v"
proof (induction k arbitrary: attempt st delay e)
  case 0
  then show ?case by (simp add: backoff_loop_success)
next
  case (Suc k)
  then have lt: "attempt < n" by simp
  have f: "fn (invocations st) = Failure (e 0)" using Suc.prems(2)[of 0] by simp
  let ?st = "st\<lparr>invocations := Suc (invocations st),
             retries := retries st @ [(attempt, e 0, delay)],
             waits := waits st @ [delay]\<rparr>"
  let ?d = "Math_min (product delay backoffFactor) maxDelay"
  have step: "backoff_loop product fn (Finite (of_nat n)) maxDelay backoffFactor onRetry delay attempt st
                = backoff_loop product fn (Finite (of_nat n)) maxDelay backoffFactor onRetry ?d
                    (Suc attempt) ?st"
    using backoff_loop_again[of attempt "Finite (of_nat n)" fn st "e 0" onRetry
        delay product maxDelay backoffFactor] lt f quiet increment_below[OF lt bound]
    by simp
  have "Suc attempt + k \<le> n" using Suc.prems(1) by simp
  moreover have "\<And>j. j < k \<Longrightarrow> fn (invocations ?st + j) = Failure (e (Suc j))"
    using Suc.prems(2)[of "Suc j" for j] by simp
  moreover have "fn (invocations ?st + k) = Success v" using Suc.prems(3) by simp
  ultimately have "\<exists>st'. backoff_loop product fn (Finite (of_nat n)) maxDelay backoffFactor onRetry
                           ?d (Suc attempt) ?st = Some st' \<and>
      invocations st' = invocations ?st + k + 1 \<and> returned st' = Fulfilled v"
    by (rule Suc.IH)
  then show ?case by (simp add: step)
qed

lemma retry_loop_success:
  "at_most attempt maxAttempts \<Longrightarrow> fn (invocations st) = Success v \<Longrightarrow>
   retry_loop toString fn maxAttempts delay attempt st
     = Some (st\<lparr>invocations := Suc (invocations st), returned := Fulfilled v\<rparr>)"
  by (subst retry_loop.simps) simp

lemma retry_loop_last:
  "at_most attempt maxAttempts \<Longrightarrow> strictly_equal attempt maxAttempts \<Longrightarrow>
   fn (invocations st) = Failure err \<Longrightarrow>
   retry_loop toString fn maxAttempts delay attempt st
     = Some (st\<lparr>invocations := Suc (invocations st),
               returned := Rejected (retry_failure toString maxAttempts err)\<rparr>)"
  by (subst retry_loop.simps) simp

lemma retry_loop_again:
  "at_most attempt maxAttempts \<Longrightarrow> \<not> strictly_equal attempt maxAttempts \<Longrightarrow>
   fn (invocations st) = Failure err \<Longrightarrow>
   retry_loop toString fn maxAttempts delay attempt st
     = retry_loop toString fn maxAttempts delay (increment attempt)
         (st\<lparr>invocations := Suc (invocations st),
             console := console st @
               [''Attempt '' @ show_nat attempt @ '' failed, retrying in '' @
                number_to_string toString delay @ ''ms...''],
             waits := waits st @ [delay]\<rparr>)"
  by (subst retry_loop.simps) simp

lemma retry_loop_exit:
  "\<not> at_most attempt maxAttempts \<Longrightarrow>
   retry_loop toString fn maxAttempts delay attempt st = Some (st\<lparr>returned := Fulfilled Undefined\<rparr>)"
  by (subst retry_loop.simps) simp

lemma retry_loop_all_fail:
  assumes bound: "n \<le> 2 ^ 53"
  shows "n - attempt = k \<Longrightarrow> attempt \<le> n \<Longrightarrow>
    (\<And>j. invocations st \<le> j \<Longrightarrow> fn j = Failure (e j)) \<Longrightarrow>
    \<exists>st'. retry_loop toString fn (Finite (of_nat n)) delay attempt st = Some st' \<and>
          invocations st' = invocations st + k + 1 \<and>
          returned st'
            = Rejected (retry_failure toString (Finite (of_nat n)) (e (invocations st + k)))"
proof (induction k arbitrary: attempt st)
  case 0
  then have "attempt = n" by simp
  then show ?case using "0.prems"(3)[of "invocations st"]
    by (simp add: retry_loop_last)
next
  case (Suc k)
  then have lt: "attempt < n" by simp
  have f: "fn (invocations st) = Failure (e (invocations st))" using Suc.prems(3) by simp
  let ?st = "st\<lparr>invocations := Suc (invocations st),
             console := console st @
               [''Attempt '' @ show_nat attempt @ '' failed, retrying in '' @
                number_to_string toString delay @ ''ms...''],
             waits := waits st @ [delay]\<rparr>"
  have step: "retry_loop toString fn (Finite (of_nat n)) delay attempt st
                = retry_loop toString fn (Finite (of_nat n)) delay (Suc attempt) ?st"
    using retry_loop_again[of attempt "Finite (of_nat n)" fn st "e (invocations st)"
        toString delay] lt f increment_below[OF lt bound]
    by simp
  have "n - Suc attempt = k" using Suc.prems(1) by simp
  moreover have "Suc attempt \<le> n" using lt by simp
  moreover have "\<And>j. invocations ?st \<le> j \<Longrightarrow> fn j = Failure (e j)"
    using Suc.prems(3) by simp
  ultimately have "\<exists>st'. retry_loop toString fn (Finite (of_nat n)) delay (Suc attempt) ?st
                           = Some st' \<and>
      invocations st' = invocations ?st + k + 1 \<and>
      returned st' = Rejected (retry_failure toString (Finite (of_nat n)) (e (invocations ?st + k)))"
    by (rule Suc.IH)
  then show ?case by (simp add: step)
qed

lemma retry_loop_then_success:
  assumes bound: "n \<le> 2 ^ 53"
  shows "attempt + k \<le> n \<Longrightarrow>
    (\<And>j. j < k \<Longrightarrow> fn (invocations st + j) = Failure (e j)) \<Longrightarrow>
    fn (invocations st + k) = Success v \<Longrightarrow>
    \<exists>st'. retry_loop toString fn (Finite (of_nat n)) delay attempt st = Some st' \<and>
          invocations st' = invocations st + k + 1 \<and> returned st' = Fulfilled v"
proof (induction k arbitrary: attempt st e)
  case 0
  then show ?case by (simp add: retry_loop_success)
next
  case (Suc k)
  then have lt: "attempt < n" by simp
  have f: "fn (invocations st) = Failure (e 0)" using Suc.prems(2)[of 0] by simp
  let ?st = "st\<lparr>invocations := Suc (invocations st),
             console := console st @
               [''Attempt '' @ show_nat attempt @ '' failed, retrying in '' @
                number_to_string toString delay @ ''ms...''],
             waits := waits st @ [delay]\<rparr>"
  have step: "retry_loop toString fn (Finite (of_nat n)) delay attempt st
                = retry_loop toString fn (Finite (of_nat n)) delay (Suc attempt) ?st"
    using retry_loop_again[of attempt "Finite (of_nat n)" fn st "e 0" toString delay]
      lt f increment_below[OF lt bound]
    by simp
  have "Suc attempt + k \<le> n" using Suc.prems(1) by simp
  moreover have "\<And>j. j < k \<Longrightarrow> fn (invocations ?st + j) = Failure (e (Suc j))"
    using Suc.prems(2)[of "Suc j" for j] by simp
  moreover have "fn (invocations ?st + k) = Success v" using Suc.prems(3) by simp
  ultimately have "\<exists>st'. retry_loop toString fn (Finite (of_nat n)) delay (Suc attempt) ?st
                           = Some st' \<and>
      invocations st' = invocations ?st + k + 1 \<and> returned st' = Fulfilled v"
    by (rule Suc.IH)
  then show ?case by (simp add: step)
qed

text \<open>The error that \<^verbatim>\<open>retry\<close> throws after the last attempt, written out.\<close>

lemma number_to_string_nat:
  "n \<le> 2 ^ 53 \<Longrightarrow> number_to_string toString (Finite (of_nat n)) = show_nat n"
proof -
  assume "n \<le> 2 ^ 53"
  then have "(of_nat n :: rat) \<le> of_nat (2 ^ 53)" by (simp only: of_nat_le_iff)
  then have "\<bar>of_nat n :: rat\<bar> \<le> 2 ^ 53" by simp
  then show ?thesis by (simp add: number_to_string_def show_int_def)
qed

lemma retry_failure_Err:
  "n \<le> 2 ^ 53 \<Longrightarrow>
   retry_failure toString (Finite (of_nat n)) (Err k msg)
     = Err Error (''Failed after '' @ show_nat n @ '' attempts: '' @ msg)"
  by (simp add: retry_failure_def get_message_def to_string_def number_to_string_nat)

lemma retry_failure_Str:
  "n \<le> 2 ^ 53 \<Longrightarrow>
   retry_failure toString (Finite (of_nat n)) (Str s)
     = Err Error (''Failed after '' @ show_nat n @ '' attempts: undefined'')"
  by (simp add: retry_failure_def get_message_def to_string_def number_to_string_nat)

text \<open>
  Where the counter cannot reach \<^verbatim>\<open>maxAttempts\<close>, a producer that always fails is called
  for ever.
\<close>

lemma retry_loop_never_returns:
  assumes r: "retry_loop toString fn maxAttempts delay attempt st = Some st'"
  shows "\<not> (attempt \<le> 2 ^ 53 \<and> (\<exists>q. maxAttempts = Finite q \<and> 2 ^ 53 < q) \<and>
            (\<forall>j. \<exists>e. fn j = Failure e))"
proof (rule retry_loop.raw_induct[
    where P = "\<lambda>toString fn maxAttempts delay attempt st st'.
      \<not> (attempt \<le> 2 ^ 53 \<and> (\<exists>q. maxAttempts = Finite q \<and> 2 ^ 53 < q) \<and>
         (\<forall>j. \<exists>e. fn j = Failure e))", OF _ r], goal_cases)
  case (1 f toString fn maxAttempts delay attempt st y)
  show ?case
  proof
    assume a: "attempt \<le> 2 ^ 53 \<and> (\<exists>q. maxAttempts = Finite q \<and> 2 ^ 53 < q) \<and>
               (\<forall>j. \<exists>e. fn j = Failure e)"
    then obtain q where q: "maxAttempts = Finite q" "2 ^ 53 < q" by auto
    from a obtain e where e: "fn (invocations st) = Failure e" by auto
    from a have "(of_nat attempt :: rat) \<le> of_nat (2 ^ 53)" by (simp only: of_nat_le_iff)
    then have le: "(of_nat attempt :: rat) \<le> 2 ^ 53" by simp
    with q have am: "at_most attempt maxAttempts" "\<not> strictly_equal attempt maxAttempts"
      by (auto simp: at_most_def strictly_equal_def)
    from 1(2) am e obtain st2 where
      next_call: "f toString fn maxAttempts delay (increment attempt) st2 = Some y"
      by auto
    have "increment attempt \<le> 2 ^ 53" using a by (intro increment_bounded) simp
    with 1(1)[OF next_call] a show False by blast
  qed
qed

text \<open>
  Claim C9, as stated, fails. \<^verbatim>\<open>retry\<close> does not pass the last error on: it throws a new
  error made from the \<^verbatim>\<open>message\<close> property of the last error, which is \<^verbatim>\<open>undefined\<close> for a
  rejection value without one, so that producers failing with different values end in the
  same failure. The claim also needs \<^verbatim>\<open>maxAttempts\<close> to be a whole number that the counter
  reaches: for 2.5 the producer that always fails is called twice and \<^verbatim>\<open>retry\<close> returns
  \<^verbatim>\<open>undefined\<close>, and for \<open>2\<^sup>5\<^sup>3 + 2\<close> the loop does not end.
\<close>

theorem retry_wraps_message_counterexample:
  "map_option returned (retry not_printed (\<lambda>j. Failure (Str ''boom'')) None None)
     = Some (Rejected (Err Error ''Failed after 3 attempts: undefined'')) \<and>
   map_option returned (retry not_printed (\<lambda>j. Failure (Str ''bang'')) None None)
     = Some (Rejected (Err Error ''Failed after 3 attempts: undefined'')) \<and>
   map_option returned
     (retry not_printed (\<lambda>j. Failure (Str ''boom'')) (Some (Finite (5 / 2))) None)
     = Some (Fulfilled Undefined) \<and>
   map_option invocations
     (retry not_printed (\<lambda>j. Failure (Str ''boom'')) (Some (Finite (5 / 2))) None)
     = Some 2 \<and>
   retry not_printed (\<lambda>j. Failure (Str ''boom'')) (Some (Finite (2 ^ 53 + 2))) None = None"
proof -
  have three: "Finite 3 = Finite (of_nat 3)" by simp
  have b: "(3::nat) \<le> 2 ^ 53" by simp
  have fail: "map_option returned (retry not_printed (\<lambda>j. Failure (Str s)) None None)
                = Some (Rejected (Err Error ''Failed after 3 attempts: undefined''))" for s
  proof -
    from retry_loop_all_fail[OF b, where attempt = 1 and k = 2 and st = retried_init
        and fn = "\<lambda>j. Failure (Str s)" and e = "\<lambda>j. Str s" and toString = not_printed
        and delay = "Finite 1000"]
    obtain st' where
      "retry_loop not_printed (\<lambda>j. Failure (Str s)) (Finite (of_nat 3)) (Finite 1000) 1 retried_init
         = Some st'"
      "returned st' = Rejected (retry_failure not_printed (Finite (of_nat 3)) (Str s))"
      by auto
    then show ?thesis
      using retry_failure_Str[OF b, of not_printed s]
      by (simp add: retry_def or_default_def)
  qed
  let ?fn = "\<lambda>j::nat. Failure (Str ''boom'')"
  let ?m = "Finite (5 / 2)"
  let ?d = "Finite 1000"
  let ?st1 = "retried_init\<lparr>invocations := Suc (invocations retried_init),
      console := console retried_init @
        [''Attempt '' @ show_nat 1 @ '' failed, retrying in '' @
         number_to_string not_printed ?d @ ''ms...''],
      waits := waits retried_init @ [?d]\<rparr>"
  let ?st2 = "?st1\<lparr>invocations := Suc (invocations ?st1),
      console := console ?st1 @
        [''Attempt '' @ show_nat (increment 1) @ '' failed, retrying in '' @
         number_to_string not_printed ?d @ ''ms...''],
      waits := waits ?st1 @ [?d]\<rparr>"
  have t: "at_most 1 ?m" "\<not> strictly_equal 1 ?m"
    "at_most (increment 1) ?m" "\<not> strictly_equal (increment 1) ?m"
    "\<not> at_most (increment (increment 1)) ?m"
    by (simp_all add: at_most_def strictly_equal_def increment_def)
  have f: "?fn j = Failure (Str ''boom'')" for j by simp
  have "retry not_printed ?fn (Some ?m) None = retry_loop not_printed ?fn ?m ?d 1 retried_init"
    by (simp add: retry_def or_default_def)
  also have "\<dots> = retry_loop not_printed ?fn ?m ?d (increment 1) ?st1"
    using t(1,2) f by (rule retry_loop_again)
  also have "\<dots> = retry_loop not_printed ?fn ?m ?d (increment (increment 1)) ?st2"
    using t(3,4) f by (rule retry_loop_again)
  also have "\<dots> = Some (?st2\<lparr>returned := Fulfilled Undefined\<rparr>)"
    using t(5) by (rule retry_loop_exit)
  finally have half: "retry not_printed ?fn (Some ?m) None
                        = Some (?st2\<lparr>returned := Fulfilled Undefined\<rparr>)" .
  have never: "retry not_printed ?fn (Some (Finite (2 ^ 53 + 2))) None = None"
  proof (cases "retry not_printed ?fn (Some (Finite (2 ^ 53 + 2))) None")
    case None
    then show ?thesis .
  next
    case (Some st')
    then have "retry_loop not_printed ?fn (Finite (2 ^ 53 + 2)) (Finite 1000) 1 retried_init
                 = Some st'"
      by (simp add: retry_def or_default_def)
    from retry_loop_never_returns[OF this] show ?thesis by simp
  qed
  show ?thesis
    using fail[of "''boom''"] fail[of "''bang''"] never
    by (simp add: half retried_init_def)
qed

text \<open>
  Claim C9, amended. Let \<^verbatim>\<open>maxAttempts\<close> be a whole number \<open>n\<close> with \<open>1 \<le> n \<le> 2\<^sup>5\<^sup>3\<close>, and let
  \<^verbatim>\<open>onRetry\<close> return normally. A producer whose every call fails is called exactly \<open>n\<close>
  times; \<^verbatim>\<open>retryWithBackoff\<close> then rejects with the error of the last call itself, and
  \<^verbatim>\<open>retry\<close> rejects with a new \<^verbatim>\<open>Error\<close> whose message is \<^verbatim>\<open>Failed after n attempts: \<close>
  followed by the message of the last error when that is an error object, and by
  \<^verbatim>\<open>undefined\<close> when it is a string. A producer that fails \<open>k < n\<close> times and then succeeds
  makes both return the value of the success after \<open>k + 1\<close> calls.
\<close>

theorem retry_termination:
  assumes "1 \<le> n" and "n \<le> 2 ^ 53"
    and "or_default (Finite 3) (opt_maxAttempts options) = Finite (of_nat n)"
    and "or_default (Finite 3) attempts = Finite (of_nat n)"
    and "\<forall>a err d. or_default (\<lambda>attempt error delay. None) (opt_onRetry options) a err d = None"
  shows
    "((\<forall>j. fn j = Failure (e j)) \<longrightarrow>
        (\<exists>st. retryWithBackoff product fn options = Some st \<and> invocations st = n \<and>
              returned st = Rejected (e (n - 1))) \<and>
        (\<exists>st. retry toString fn attempts delay = Some st \<and> invocations st = n \<and>
              (\<forall>kind msg. e (n - 1) = Err kind msg \<longrightarrow>
                 returned st
                   = Rejected (Err Error (''Failed after '' @ show_nat n @ '' attempts: '' @ msg))) \<and>
              (\<forall>s. e (n - 1) = Str s \<longrightarrow>
                 returned st
                   = Rejected (Err Error (''Failed after '' @ show_nat n @
                                          '' attempts: undefined''))))) \<and>
     (k < n \<and> (\<forall>j<k. fn j = Failure (e j)) \<and> fn k = Success v \<longrightarrow>
        (\<exists>st. retryWithBackoff product fn options = Some st \<and> invocations st = k + 1 \<and>
              returned st = Fulfilled v) \<and>
        (\<exists>st. retry toString fn attempts delay = Some st \<and> invocations st = k + 1 \<and>
              returned st = Fulfilled v))"
proof (intro conjI impI)
  assume fails: "\<forall>j. fn j = Failure (e j)"
  have i0: "invocations retried_init = 0" by (simp add: retried_init_def)
  have q: "\<And>a err d. or_default (\<lambda>attempt error delay. None) (opt_onRetry options) a err d = None"
    using assms(5) by simp
  have pos: "Suc (n - Suc 0) = n" "n - 1 = n - Suc 0" using assms(1) by simp_all
  from backoff_loop_all_fail[OF q assms(2), where attempt = 1 and k = "n - 1"
      and st = retried_init and fn = fn and e = e and product = product
      and maxDelay = "or_default (Finite 30000) (opt_maxDelay options)"
      and backoffFactor = "or_default (Finite 2) (opt_backoffFactor options)"
      and delay = "or_default (Finite 1000) (opt_initialDelay options)"]
  show "\<exists>st. retryWithBackoff product fn options = Some st \<and> invocations st = n \<and>
             returned st = Rejected (e (n - 1))"
    using assms(1) fails by (simp add: retryWithBackoff_def assms(3) i0 pos)
  from retry_loop_all_fail[OF assms(2), where attempt = 1 and k = "n - 1"
      and st = retried_init and fn = fn and e = e and toString = toString
      and delay = "or_default (Finite 1000) delay"]
  obtain st where st: "retry toString fn attempts delay = Some st" "invocations st = n"
    "returned st = Rejected (retry_failure toString (Finite (of_nat n)) (e (n - 1)))"
    using assms(1) fails by (auto simp: retry_def assms(4) i0 pos)
  have "returned st = Rejected (Err Error (''Failed after '' @ show_nat n @ '' attempts: '' @ msg))"
    if "e (n - 1) = Err kind msg" for kind msg
    using st(3) that by (simp add: retry_failure_Err[OF assms(2)])
  moreover
  have "returned st = Rejected (Err Error (''Failed after '' @ show_nat n @ '' attempts: undefined''))"
    if "e (n - 1) = Str s" for s
    using st(3) that by (simp add: retry_failure_Str[OF assms(2)])
  ultimately
  show "\<exists>st. retry toString fn attempts delay = Some st \<and> invocations st = n \<and>
             (\<forall>kind msg. e (n - 1) = Err kind msg \<longrightarrow>
                returned st
                  = Rejected (Err Error (''Failed after '' @ show_nat n @ '' attempts: '' @ msg))) \<and>
             (\<forall>s. e (n - 1) = Str s \<longrightarrow>
                returned st
                  = Rejected (Err Error (''Failed after '' @ show_nat n @
                                         '' attempts: undefined'')))"
    using st(1,2) by blast
next
  assume h: "k < n \<and> (\<forall>j<k. fn j = Failure (e j)) \<and> fn k = Success v"
  have i0: "invocations retried_init = 0" by (simp add: retried_init_def)
  have q: "\<And>a err d. or_default (\<lambda>attempt error delay. None) (opt_onRetry options) a err d = None"
    using assms(5) by simp
  from backoff_loop_then_success[OF q assms(2), where attempt = 1 and k = k
      and st = retried_init and fn = fn and e = e and v = v and product = product
      and maxDelay = "or_default (Finite 30000) (opt_maxDelay options)"
      and backoffFactor = "or_default (Finite 2) (opt_backoffFactor options)"
      and delay = "or_default (Finite 1000) (opt_initialDelay options)"]
  show "\<exists>st. retryWithBackoff product fn options = Some st \<and> invocations st = k + 1 \<and>
             returned st = Fulfilled v"
    using h by (simp add: retryWithBackoff_def assms(3) i0)
  from retry_loop_then_success[OF assms(2), where attempt = 1 and k = k
      and st = retried_init and fn = fn and e = e and v = v and toString = toString
      and delay = "or_default (Finite 1000) delay"]
  show "\<exists>st. retry toString fn attempts delay = Some st \<and> invocations st = k + 1 \<and>
             returned st = Fulfilled v"
    using h by (simp add: retry_def assms(4) i0)
qed

theorem retry_termination_witness:
  "(\<exists>st. retryWithBackoff exact_product (\<lambda>j. Failure (Err Error ''boom'')) no_options = Some st \<and>
         invocations st = 3 \<and> returned st = Rejected (Err Error ''boom'')) \<and>
   (\<exists>st. retry not_printed (\<lambda>j. Failure (Err TypeError ''boom'')) None None = Some st \<and>
         invocations st = 3 \<and>
         returned st = Rejected (Err Error ''Failed after 3 attempts: boom'')) \<and>
   (\<exists>st. retryWithBackoff exact_product
           (\<lambda>j. if j < 2 then Failure (Num 7) else Success (Str ''ok'')) no_options = Some st \<and>
         invocations st = 3 \<and> returned st = Fulfilled (Str ''ok'')) \<and>
   (\<exists>st. retry not_printed (\<lambda>j. if j < 2 then Failure (Num 7) else Success (Str ''ok''))
           None None = Some st \<and>
         invocations st = 3 \<and> returned st = Fulfilled (Str ''ok''))"
proof -
  have a: "(1::nat) \<le> 3" "(3::nat) \<le> 2 ^ 53"
    "or_default (Finite 3) (opt_maxAttempts no_options) = Finite (of_nat 3)"
    "or_default (Finite 3) None = Finite (of_nat 3)"
    "\<forall>a err d. or_default (\<lambda>attempt error delay. None) (opt_onRetry no_options) a err d = None"
    by (simp_all add: or_default_def no_options_def)
  have three: "show_nat 3 = ''3''" by simp
  from retry_termination[OF a, where fn = "\<lambda>j. Failure (Err Error ''boom'')"
      and e = "\<lambda>j. Err Error ''boom''" and product = exact_product
      and toString = not_printed and delay = None and k = 0 and v = Undefined]
  have 1: "\<exists>st. retryWithBackoff exact_product (\<lambda>j. Failure (Err Error ''boom'')) no_options
                  = Some st \<and>
                invocations st = 3 \<and> returned st = Rejected (Err Error ''boom'')"
    by simp
  from retry_termination[OF a, where fn = "\<lambda>j. Failure (Err TypeError ''boom'')"
      and e = "\<lambda>j. Err TypeError ''boom''" and product = exact_product
      and toString = not_printed and delay = None and k = 0 and v = Undefined]
  have 2: "\<exists>st. retry not_printed (\<lambda>j. Failure (Err TypeError ''boom'')) None None = Some st \<and>
                invocations st = 3 \<and>
                returned st = Rejected (Err Error ''Failed after 3 attempts: boom'')"
    by (simp add: three)
  from retry_termination[OF a,
      where fn = "\<lambda>j. if j < 2 then Failure (Num 7) else Success (Str ''ok'')"
      and e = "\<lambda>j. Num 7" and product = exact_product
      and toString = not_printed and delay = None and k = 2 and v = "Str ''ok''"]
  have 3: "\<exists>st. retryWithBackoff exact_product
                  (\<lambda>j. if j < 2 then Failure (Num 7) else Success (Str ''ok'')) no_options
                  = Some st \<and>
                invocations st = 3 \<and> returned st = Fulfilled (Str ''ok'')"
    "\<exists>st. retry not_printed (\<lambda>j. if j < 2 then Failure (Num 7) else Success (Str ''ok''))
            None None = Some st \<and>
          invocations st = 3 \<and> returned st = Fulfilled (Str ''ok'')"
    by simp_all
  from 1 2 3 show ?thesis by blast
qed

section \<open>Properties of Promise.myRace\<close>

text \<open>
  Claim C10. \<^verbatim>\<open>Promise.myRace([])\<close> returns a promise that stays pending whatever
  reactions run afterwards, so no continuation registered on it is ever called.
\<close>

theorem myRace_empty_never_settles:
  "race_promise (myRace (Array []) sched) = Pending \<and>
   delivered (race_promise (myRace (Array []) sched)) = []"
  by (simp add: myRace_def myRace_start_def delivered_def)

section \<open>Properties of the worker pools\<close>

subsection \<open>The invariant of a pool\<close>

lemma count_list_update:
  "w < length xs \<Longrightarrow>
   count_list (xs[w := y]) a + (if xs ! w = a then 1 else 0)
     = count_list xs a + (if y = a then 1 else 0)"
proof (induction xs arbitrary: w)
  case Nil
  then show ?case by simp
next
  case (Cons x xs)
  show ?case
  proof (cases w)
    case 0
    then show ?thesis by simp
  next
    case (Suc v)
    with Cons.prems have "v < length xs" by simp
    from Cons.IH[OF this] Suc show ?thesis by (auto split: if_splits)
  qed
qed

lemma filter_length_update:
  "w < length xs \<Longrightarrow>
   length (filter P (xs[w := y])) + (if P (xs ! w) then 1 else 0)
     = length (filter P xs) + (if P y then 1 else 0)"
proof (induction xs arbitrary: w)
  case Nil
  then show ?case by simp
next
  case (Cons x xs)
  show ?case
  proof (cases w)
    case 0
    then show ?thesis by simp
  next
    case (Suc v)
    with Cons.prems have "v < length xs" by simp
    from Cons.IH[OF this] Suc show ?thesis by simp
  qed
qed

lemma count_list_filter:
  "count_list (filter P xs) i = (if P i then count_list xs i else 0)"
  by (induction xs) auto

lemma distinct_count:
  "distinct xs \<Longrightarrow> count_list xs i = (if i \<in> set xs then 1 else 0)"
  by (induction xs) auto

lemma in_set_update_other:
  "x \<in> set ws \<Longrightarrow> x \<noteq> ws ! w \<Longrightarrow> x \<in> set (ws[w := y])"
  by (auto simp: in_set_conv_nth nth_list_update) (metis length_list_update nth_list_update_neq)

lemma in_set_update_cases:
  "x \<in> set (ws[w := y]) \<Longrightarrow> x = y \<or> x \<in> set ws"
  by (auto dest: set_update_subset_insert[THEN subsetD])

lemma core_advance:
  assumes c: "core n st" and w: "w < length (workers st)" "workers st ! w = Awaiting i"
    and s1: "settled st1 = settled st @ [i]" "workers st1 = workers st"
      "iterator st1 = iterator st" "started st1 = started st" "length (results st1) = n"
  shows "core n (advance n w st1)"
proof -
  have cnt: "count_list ((workers st)[w := y]) a + (if Awaiting i = a then 1 else 0)
           = count_list (workers st) a + (if y = a then 1 else 0)" for y a
    using count_list_update[OF w(1), of y a] w(2) by simp
  have fl: "length (filter is_awaiting ((workers st)[w := y])) + 1
           = length (filter is_awaiting (workers st)) + (if is_awaiting y then 1 else 0)" for y
    using filter_length_update[OF w(1), of is_awaiting y] w(2) by simp
  have mem: "Returned \<in> set ((workers st)[w := y]) \<Longrightarrow> Returned \<in> set (workers st) \<or> y = Returned" for y
    by (auto dest: set_update_subset_insert[THEN subsetD])
  have conserve: "count_list (workers st) (Awaiting j) + count_list (settled st) j
             = (if j < iterator st then 1 else 0)" for j
    using c by (simp add: core_def)
  have i: "i < iterator st"
  proof (rule ccontr)
    assume "\<not> i < iterator st"
    with conserve[of i] have "count_list (workers st) (Awaiting i) = 0" by simp
    then have "Awaiting i \<notin> set (workers st)" by (simp add: count_list_0_iff)
    with w show False by (metis nth_mem)
  qed
  show ?thesis
  proof (cases "iterator st < n")
    case True
    let ?st = "advance n w st1"
    have f: "length (results ?st) = length (results st)" "iterator ?st = Suc (iterator st)"
      "started ?st = started st @ [iterator st]" "settled ?st = settled st @ [i]"
      "workers ?st = (workers st)[w := Awaiting (iterator st)]"
      using True s1 c by (simp_all add: advance_def next_entry_def core_def)
    show ?thesis
      unfolding core_def f in_flight_def
    proof (intro conjI allI impI)
      show "length (results st) = n" "Suc (iterator st) \<le> n" using c True by (simp_all add: core_def)
      show "started st @ [iterator st] = [0..<Suc (iterator st)]" using c by (simp add: core_def)
      show "length (filter is_awaiting ((workers st)[w := Awaiting (iterator st)]))
              + length (settled st @ [i]) = Suc (iterator st)"
        using fl[of "Awaiting (iterator st)"] c by (simp add: core_def in_flight_def)
      show "count_list ((workers st)[w := Awaiting (iterator st)]) (Awaiting j)
              + count_list (settled st @ [i]) j = (if j < Suc (iterator st) then 1 else 0)" for j
        using cnt[of "Awaiting (iterator st)" "Awaiting j"] conserve[of j] i
        by (auto split: if_splits)
      show "Suc (iterator st) = n" if "Returned \<in> set ((workers st)[w := Awaiting (iterator st)])"
        using mem[OF that] c True by (simp add: core_def)
    qed
  next
    case False
    let ?st = "advance n w st1"
    have f: "length (results ?st) = length (results st)" "iterator ?st = iterator st"
      "started ?st = started st" "settled ?st = settled st @ [i]"
      "workers ?st = (workers st)[w := Returned]"
      using False s1 c by (simp_all add: advance_def next_entry_def core_def)
    show ?thesis
      unfolding core_def f in_flight_def
    proof (intro conjI allI impI)
      show "length (results st) = n" "iterator st \<le> n" "started st = [0..<iterator st]"
        using c by (simp_all add: core_def)
      show "length (filter is_awaiting ((workers st)[w := Returned]))
              + length (settled st @ [i]) = iterator st"
        using fl[of Returned] c by (simp add: core_def in_flight_def)
      show "count_list ((workers st)[w := Returned]) (Awaiting j)
              + count_list (settled st @ [i]) j = (if j < iterator st then 1 else 0)" for j
        using cnt[of Returned "Awaiting j"] conserve[of j] i
        by (auto split: if_splits)
      show "iterator st = n" using c False by (simp add: core_def)
    qed
  qed
qed

lemma core_die:
  assumes c: "core n st" and w: "w < length (workers st)" "workers st ! w = Awaiting i"
  shows "core n (die w i e st)"
proof -
  have cnt: "count_list ((workers st)[w := y]) a + (if Awaiting i = a then 1 else 0)
           = count_list (workers st) a + (if y = a then 1 else 0)" for y a
    using count_list_update[OF w(1), of y a] w(2) by simp
  have fl: "length (filter is_awaiting ((workers st)[w := y])) + 1
           = length (filter is_awaiting (workers st)) + (if is_awaiting y then 1 else 0)" for y
    using filter_length_update[OF w(1), of is_awaiting y] w(2) by simp
  have mem: "Returned \<in> set ((workers st)[w := y]) \<Longrightarrow> Returned \<in> set (workers st) \<or> y = Returned" for y
    by (auto dest: set_update_subset_insert[THEN subsetD])
  have conserve: "count_list (workers st) (Awaiting j) + count_list (settled st) j
             = (if j < iterator st then 1 else 0)" for j
    using c by (simp add: core_def)
  have i: "i < iterator st"
  proof (rule ccontr)
    assume "\<not> i < iterator st"
    with conserve[of i] have "count_list (workers st) (Awaiting i) = 0" by simp
    then have "Awaiting i \<notin> set (workers st)" by (simp add: count_list_0_iff)
    with w show False by (metis nth_mem)
  qed
  let ?st = "die w i e st"
  have f: "results ?st = results st" "iterator ?st = iterator st"
    "started ?st = started st" "settled ?st = settled st @ [i]"
    "workers ?st = (workers st)[w := Thrown e]"
    by (simp_all add: die_def)
  show ?thesis
    unfolding core_def f in_flight_def
  proof (intro conjI allI impI)
    show "length (results st) = n" "iterator st \<le> n" "started st = [0..<iterator st]"
      using c by (simp_all add: core_def)
    show "length (filter is_awaiting ((workers st)[w := Thrown e]))
            + length (settled st @ [i]) = iterator st"
      using fl[of "Thrown e"] c by (simp add: core_def in_flight_def)
    show "count_list ((workers st)[w := Thrown e]) (Awaiting j)
            + count_list (settled st @ [i]) j = (if j < iterator st then 1 else 0)" for j
      using cnt[of "Thrown e" "Awaiting j"] conserve[of j] i
      by (auto split: if_splits)
    show "iterator st = n" if "Returned \<in> set ((workers st)[w := Thrown e])"
      using mem[OF that] c by (simp add: core_def)
  qed
qed

lemma first_thrown_None: "first_thrown ws = None \<longleftrightarrow> (\<forall>e. Thrown e \<notin> set ws)"
  by (induction ws rule: first_thrown.induct) auto

lemma first_thrown_Some: "first_thrown ws = Some e \<Longrightarrow> Thrown e \<in> set ws"
  by (induction ws rule: first_thrown.induct) auto

lemma first_thrown_update:
  "first_thrown ws = None \<Longrightarrow> w < length ws \<Longrightarrow> first_thrown (ws[w := Thrown e]) = Some e"
proof (induction ws arbitrary: w)
  case Nil
  then show ?case by simp
next
  case (Cons a ws)
  show ?case
  proof (cases w)
    case 0
    then show ?thesis by simp
  next
    case (Suc v)
    with Cons.prems have "first_thrown ws = None" "v < length ws" "\<forall>e. a \<noteq> Thrown e"
      by (cases a; simp)+
    with Cons.IH[of v] Suc show ?thesis by (cases a) simp_all
  qed
qed

lemma promise_ok_await_all: "promise_pre st \<Longrightarrow> promise_ok (await_all st)"
  by (cases "promise st")
     (auto simp: promise_pre_def promise_ok_def await_all_def settle_def all_returned_def
        dest: first_thrown_Some split: option.splits)

lemma await_all_fields [simp]:
  "results (await_all st) = results st" "iterator (await_all st) = iterator st"
  "workers (await_all st) = workers st" "started (await_all st) = started st"
  "settled (await_all st) = settled st" "written (await_all st) = written st"
  by (simp_all add: await_all_def split: option.splits)

lemma core_await_all [simp]: "core n (await_all st) = core n st"
  by (simp add: core_def in_flight_def)

lemma await_all_settled_promise:
  "promise st \<noteq> Pending \<Longrightarrow> promise (await_all st) = promise st"
  by (simp add: await_all_def settle_def split: option.splits)

lemma awaiting_not_all_returned:
  "w < length ws \<Longrightarrow> ws ! w = Awaiting i \<Longrightarrow> \<not> all_returned ws"
  by (auto simp: all_returned_def list_all_length)

lemma core_awaiting_lt:
  assumes "core n st" "w < length (workers st)" "workers st ! w = Awaiting i"
  shows "i < iterator st" "i < n" "i \<notin> set (settled st)"
proof -
  have c: "count_list (workers st) (Awaiting i) + count_list (settled st) i
             = (if i < iterator st then 1 else 0)"
    using assms(1) by (simp add: core_def)
  have "Awaiting i \<in> set (workers st)" using assms(2,3) by (metis nth_mem)
  then have "0 < count_list (workers st) (Awaiting i)" by (metis count_list_0_iff gr0I)
  with c show "i < iterator st" "i \<notin> set (settled st)"
    by (auto simp: count_list_0_iff[symmetric] split: if_splits)
  then show "i < n" using assms(1) by (simp add: core_def)
qed

lemma spawn_Suc: "spawn n (Suc k) st = spawn n k (spawn_step n st)"
  by (simp add: spawn_step_def)

lemma spawn_step_fields:
  "results (spawn_step n st) = results st" "settled (spawn_step n st) = settled st"
  "written (spawn_step n st) = written st" "promise (spawn_step n st) = promise st"
  "workers (spawn_step n st)
     = workers st @ [if iterator st < n then Awaiting (iterator st) else Returned]"
  "iterator (spawn_step n st) = (if iterator st < n then Suc (iterator st) else iterator st)"
  "started (spawn_step n st)
     = (if iterator st < n then started st @ [iterator st] else started st)"
  by (simp_all add: spawn_step_def next_entry_def)

lemma core_spawn_step:
  assumes "core n st"
  shows "core n (spawn_step n st)"
proof -
  have conserve: "count_list (workers st) (Awaiting j) + count_list (settled st) j
             = (if j < iterator st then 1 else 0)" for j
    using assms by (simp add: core_def)
  show ?thesis
    unfolding core_def in_flight_def spawn_step_fields
  proof (intro conjI allI impI)
    show "count_list (workers st @ [if iterator st < n then Awaiting (iterator st) else Returned])
            (Awaiting j) + count_list (settled st) j
          = (if j < (if iterator st < n then Suc (iterator st) else iterator st) then 1 else 0)" for j
      using conserve[of j] by (auto split: if_splits)
  qed (use assms in \<open>auto simp: core_def in_flight_def\<close>)
qed

lemma spawn_props:
  "core n st \<Longrightarrow> core n (spawn n k st)"
  "results (spawn n k st) = results st" "settled (spawn n k st) = settled st"
  "written (spawn n k st) = written st" "promise (spawn n k st) = promise st"
  "length (workers (spawn n k st)) = length (workers st) + k"
  "Thrown e \<in> set (workers (spawn n k st)) \<longleftrightarrow> Thrown e \<in> set (workers st)"
proof (induction k arbitrary: st)
  case 0
  {
    case 1 then show ?case by simp
  next
    case 2 show ?case by simp
  next
    case 3 show ?case by simp
  next
    case 4 show ?case by simp
  next
    case 5 show ?case by simp
  next
    case 6 show ?case by simp
  next
    case 7 show ?case by simp
  }
next
  case (Suc k)
  {
    case 1 then show ?case unfolding spawn_Suc by (intro Suc.IH(1) core_spawn_step)
  next
    case 2 show ?case unfolding spawn_Suc by (simp add: Suc.IH(2) spawn_step_fields)
  next
    case 3 show ?case unfolding spawn_Suc by (simp add: Suc.IH(3) spawn_step_fields)
  next
    case 4 show ?case unfolding spawn_Suc by (simp add: Suc.IH(4) spawn_step_fields)
  next
    case 5 show ?case unfolding spawn_Suc by (simp add: Suc.IH(5) spawn_step_fields)
  next
    case 6 show ?case unfolding spawn_Suc by (simp add: Suc.IH(6) spawn_step_fields)
  next
    case 7 show ?case unfolding spawn_Suc by (simp add: Suc.IH(7) spawn_step_fields)
  }
qed

lemma advance_fields:
  "results (advance n w st) = results st" "written (advance n w st) = written st"
  "settled (advance n w st) = settled st" "promise (advance n w st) = promise st"
  "workers (advance n w st)
     = (workers st)[w := if iterator st < n then Awaiting (iterator st) else Returned]"
  by (simp_all add: advance_def next_entry_def)

lemma die_fields:
  "results (die w i e st) = results st" "written (die w i e st) = written st"
  "settled (die w i e st) = settled st @ [i]" "promise (die w i e st) = promise st"
  "workers (die w i e st) = (workers st)[w := Thrown e]"
  "iterator (die w i e st) = iterator st" "started (die w i e st) = started st"
  by (simp_all add: die_def)

lemma promise_pre_update:
  assumes "promise_ok st" "w < length (workers st)" "workers st ! w = Awaiting i"
    and "promise st' = promise st" "workers st' = (workers st)[w := y]"
  shows "promise_pre st'"
proof (cases "promise st")
  case Pending
  then show ?thesis using assms(4) by (simp add: promise_pre_def)
next
  case (Fulfilled rs)
  with assms(1) have "all_returned (workers st)" by (simp add: promise_ok_def)
  with awaiting_not_all_returned[OF assms(2,3)] show ?thesis by simp
next
  case (Rejected e)
  with assms(1) have "Thrown e \<in> set (workers st)" by (simp add: promise_ok_def)
  then have "Thrown e \<in> set ((workers st)[w := y])"
    using assms(3) by (intro in_set_update_other) simp_all
  with Rejected assms(4,5) show ?thesis by (simp add: promise_pre_def)
qed

lemma core_settled_distinct:
  assumes "core n st"
  shows "distinct (settled st)"
proof (rule count_le_distinct)
  fix i
  have "count_list (workers st) (Awaiting i) + count_list (settled st) i
          = (if i < iterator st then 1 else 0)"
    using assms by (simp add: core_def)
  then show "count_list (settled st) i \<le> 1" by (simp split: if_splits)
qed

lemma in_flight_le: "in_flight st \<le> length (workers st)"
  by (simp add: in_flight_def)

lemma all_returned_settled:
  assumes c: "core n st" and r: "all_returned (workers st)" and ne: "workers st \<noteq> [] \<or> n = 0"
  shows "set (settled st) = {0..<n}"
proof -
  have it: "iterator st = n"
  proof (cases "workers st")
    case Nil
    with ne c show ?thesis by (simp add: core_def)
  next
    case (Cons a ws)
    with r have "Returned \<in> set (workers st)" by (simp add: all_returned_def)
    with c show ?thesis by (simp add: core_def)
  qed
  have mem: "i \<in> set (settled st) \<longleftrightarrow> i < n" for i
  proof -
    have "count_list (workers st) (Awaiting i) + count_list (settled st) i
            = (if i < n then 1 else 0)"
      using c it by (simp add: core_def)
    moreover have "Awaiting i \<notin> set (workers st)"
      using r by (auto simp: all_returned_def list_all_iff)
    then have "count_list (workers st) (Awaiting i) = 0" by simp
    ultimately have k: "count_list (settled st) i = (if i < n then 1 else 0)" by simp
    show ?thesis
    proof (cases "i < n")
      case True
      with k have "count_list (settled st) i \<noteq> 0" by simp
      then have "i \<in> set (settled st)" by (simp add: count_list_0_iff)
      with True show ?thesis by simp
    next
      case False
      with k have "count_list (settled st) i = 0" by simp
      then have "i \<notin> set (settled st)" by (simp add: count_list_0_iff)
      with False show ?thesis by simp
    qed
  qed
  show ?thesis
  proof (rule set_eqI)
    fix i show "i \<in> set (settled st) \<longleftrightarrow> i \<in> {0..<n}" using mem[of i] by simp
  qed
qed

lemma core_settled_subset:
  assumes "core n st"
  shows "set (settled st) \<subseteq> {0..<iterator st}"
proof
  fix i assume "i \<in> set (settled st)"
  then have "count_list (settled st) i \<noteq> 0" by (simp add: count_list_0_iff)
  moreover have "count_list (workers st) (Awaiting i) + count_list (settled st) i
          = (if i < iterator st then 1 else 0)"
    using assms by (simp add: core_def)
  ultimately show "i \<in> {0..<iterator st}" by (simp split: if_splits)
qed

lemma core_settled_le:
  assumes "core n st"
  shows "length (settled st) \<le> n"
proof -
  have "in_flight st + length (settled st) = iterator st" "iterator st \<le> n"
    using assms by (simp_all add: core_def)
  then show ?thesis by simp
qed

lemma core_unsettled:
  assumes c: "core n st"
  shows "length (unsettled st) = in_flight st"
proof -
  let ?S = "set (settled st)"
  have sub: "?S \<subseteq> {0..<iterator st}" using c by (rule core_settled_subset)
  have "length (unsettled st) = card ({i. i \<notin> ?S} \<inter> set [0..<iterator st])"
    using c by (simp add: unsettled_def core_def distinct_length_filter)
  also have "{i. i \<notin> ?S} \<inter> set [0..<iterator st] = {0..<iterator st} - ?S" by auto
  also have "card ({0..<iterator st} - ?S) = card {0..<iterator st} - card ?S"
    using sub by (intro card_Diff_subset) simp_all
  also have "card ?S = length (settled st)"
    using core_settled_distinct[OF c] by (rule distinct_card)
  finally have "length (unsettled st) = iterator st - length (settled st)" by simp
  moreover have "in_flight st + length (settled st) = iterator st"
    using c by (simp add: core_def)
  ultimately show ?thesis by simp
qed

lemma no_awaiting:
  assumes "in_flight st = 0" "\<forall>e. Thrown e \<notin> set (workers st)"
  shows "all_returned (workers st)"
proof -
  have "w = Returned" if "w \<in> set (workers st)" for w
  proof (cases w)
    case (Awaiting i)
    with that have "w \<in> set (filter is_awaiting (workers st))" by simp
    with assms(1) show ?thesis by (simp add: in_flight_def)
  next
    case Returned
    then show ?thesis .
  next
    case (Thrown e)
    with that assms(2) show ?thesis by simp
  qed
  then show ?thesis by (simp add: all_returned_def list_all_iff)
qed

lemma some_awaiting:
  assumes "in_flight st \<noteq> 0"
  obtains w i where "w < length (workers st)" "workers st ! w = Awaiting i"
proof -
  from assms have "filter is_awaiting (workers st) \<noteq> []" by (simp add: in_flight_def)
  then obtain x where x: "x \<in> set (workers st)" "is_awaiting x"
    by (auto simp: filter_empty_conv)
  from x(2) obtain i where "x = Awaiting i" by (cases x) simp_all
  with x(1) obtain w where "w < length (workers st)" "workers st ! w = Awaiting i"
    by (auto simp: in_set_conv_nth)
  then show ?thesis by (rule that)
qed

subsection \<open>mapLimitOptimized\<close>

lemma resume_success:
  assumes "w < length (workers st)" "workers st ! w = Awaiting i"
    "asyncFn (array ! i) i = Success v"
  shows "mapLimitOptimized_resume array asyncFn w st
           = await_all (advance (length array) w
               (st\<lparr>settled := settled st @ [i], results := array_set (results st) i v,
                   written := written st @ [i]\<rparr>))"
  using assms
  by (simp add: mapLimitOptimized_resume_def advance_def Let_def split: prod.splits)

lemma resume_failure:
  assumes "w < length (workers st)" "workers st ! w = Awaiting i"
    "asyncFn (array ! i) i = Failure e"
  shows "mapLimitOptimized_resume array asyncFn w st = await_all (die w i e st)"
  using assms by (simp add: mapLimitOptimized_resume_def die_def Let_def)

lemma resume_idle:
  "\<not> (w < length (workers st) \<and> is_awaiting (workers st ! w)) \<Longrightarrow>
   mapLimitOptimized_resume array asyncFn w st = st"
  by (cases "workers st ! w") (auto simp: mapLimitOptimized_resume_def)

lemma map_inv_resume:
  assumes inv: "map_inv (\<lambda>i. asyncFn (array ! i) i) (length array) st"
  shows "map_inv (\<lambda>i. asyncFn (array ! i) i) (length array) (mapLimitOptimized_resume array asyncFn w st)"
proof (cases "w < length (workers st) \<and> is_awaiting (workers st ! w)")
  case False
  then show ?thesis using inv by (simp add: resume_idle)
next
  case True
  then obtain i where w: "w < length (workers st)" "workers st ! w = Awaiting i"
    by (cases "workers st ! w") auto
  let ?n = "length array"
  let ?f = "\<lambda>i. asyncFn (array ! i) i"
  from inv have c: "core ?n st" and pk: "promise_ok st"
    and wr: "written st = filter (\<lambda>i. succeeded (?f i)) (settled st)"
    and rs: "\<And>j. j < ?n \<Longrightarrow> results st ! j = (if j \<in> set (settled st) then value_of (?f j) else None)"
    and th1: "\<And>j e. j \<in> set (settled st) \<Longrightarrow> ?f j = Failure e \<Longrightarrow> Thrown e \<in> set (workers st)"
    and th2: "\<And>e. Thrown e \<in> set (workers st) \<Longrightarrow> \<exists>j \<in> set (settled st). ?f j = Failure e"
    by (auto simp: map_inv_def)
  note i = core_awaiting_lt[OF c w]
  have len: "length (results st) = ?n" using c by (simp add: core_def)
  show ?thesis
  proof (cases "?f i")
    case (Success v)
    let ?st1 = "st\<lparr>settled := settled st @ [i], results := array_set (results st) i v,
                    written := written st @ [i]\<rparr>"
    let ?st2 = "advance ?n w ?st1"
    let ?y = "if iterator st < ?n then Awaiting (iterator st) else Returned"
    have run: "mapLimitOptimized_resume array asyncFn w st = await_all ?st2"
      using w Success by (rule resume_success)
    have c2: "core ?n ?st2"
      using c w by (rule core_advance) (use i(2) len in \<open>simp_all add: array_set_def\<close>)
    have ws: "workers ?st2 = (workers st)[w := ?y]" by (simp add: advance_fields)
    have pp: "promise_pre ?st2"
      using pk w by (rule promise_pre_update) (simp_all add: advance_fields)
    have "map_inv ?f ?n (await_all ?st2)"
      unfolding map_inv_def
    proof (intro conjI allI impI ballI)
      show "core ?n (await_all ?st2)" using c2 by simp
      show "promise_ok (await_all ?st2)" using pp by (rule promise_ok_await_all)
      show "written (await_all ?st2) = filter (\<lambda>i. succeeded (?f i)) (settled (await_all ?st2))"
        using wr Success by (simp add: advance_fields)
      show "results (await_all ?st2) ! j
              = (if j \<in> set (settled (await_all ?st2)) then value_of (?f j) else None)"
        if "j < ?n" for j
        using that rs[of j] Success i(2) len
        by (auto simp: advance_fields array_set_def nth_list_update)
      show "Thrown e \<in> set (workers (await_all ?st2))"
        if "j \<in> set (settled (await_all ?st2))" "?f j = Failure e" for j e
      proof -
        from that Success have "j \<in> set (settled st)" by (auto simp: advance_fields)
        from th1[OF this that(2)] have "Thrown e \<in> set (workers st)" .
        then have "Thrown e \<in> set ((workers st)[w := ?y])"
          using w(2) by (intro in_set_update_other) simp_all
        then show ?thesis by (simp add: ws)
      qed
      show "\<exists>j \<in> set (settled (await_all ?st2)). ?f j = Failure e"
        if "Thrown e \<in> set (workers (await_all ?st2))" for e
      proof -
        from that have "Thrown e \<in> set ((workers st)[w := ?y])" by (simp add: ws)
        from in_set_update_cases[OF this] have "Thrown e \<in> set (workers st)"
          by (auto split: if_splits)
        from th2[OF this] show ?thesis by (auto simp: advance_fields)
      qed
    qed
    then show ?thesis by (simp add: run)
  next
    case (Failure e)
    let ?st2 = "die w i e st"
    have run: "mapLimitOptimized_resume array asyncFn w st = await_all ?st2"
      using w Failure by (rule resume_failure)
    have c2: "core ?n ?st2" using c w by (rule core_die)
    have pp: "promise_pre ?st2"
      using pk w by (rule promise_pre_update) (simp_all add: die_fields)
    have "map_inv ?f ?n (await_all ?st2)"
      unfolding map_inv_def
    proof (intro conjI allI impI ballI)
      show "core ?n (await_all ?st2)" using c2 by simp
      show "promise_ok (await_all ?st2)" using pp by (rule promise_ok_await_all)
      show "written (await_all ?st2) = filter (\<lambda>i. succeeded (?f i)) (settled (await_all ?st2))"
        using wr Failure by (simp add: die_fields)
      show "results (await_all ?st2) ! j
              = (if j \<in> set (settled (await_all ?st2)) then value_of (?f j) else None)"
        if "j < ?n" for j
        using that rs[of j] Failure i(3)
        by (auto simp: die_fields)
      show "Thrown e' \<in> set (workers (await_all ?st2))"
        if "j \<in> set (settled (await_all ?st2))" "?f j = Failure e'" for j e'
      proof (cases "j = i")
        case True
        with that Failure have "e' = e" by simp
        then show ?thesis using w(1) by (simp add: die_fields set_update_memI)
      next
        case False
        with that have "j \<in> set (settled st)" by (auto simp: die_fields)
        from th1[OF this that(2)] have "Thrown e' \<in> set (workers st)" .
        then have "Thrown e' \<in> set ((workers st)[w := Thrown e])"
          using w(2) by (intro in_set_update_other) simp_all
        then show ?thesis by (simp add: die_fields)
      qed
      show "\<exists>j \<in> set (settled (await_all ?st2)). ?f j = Failure e'"
        if "Thrown e' \<in> set (workers (await_all ?st2))" for e'
      proof -
        from that have "Thrown e' \<in> set ((workers st)[w := Thrown e])" by (simp add: die_fields)
        from in_set_update_cases[OF this] have "e' = e \<or> Thrown e' \<in> set (workers st)"
          by auto
        then show ?thesis using th2[of e'] Failure by (auto simp: die_fields)
      qed
    qed
    then show ?thesis by (simp add: run)
  qed
qed

lemma core_pool0: "core n (pool0 n)"
  by (simp add: core_def pool0_def in_flight_def)

lemma start_nonneg:
  "0 \<le> limit \<Longrightarrow>
   mapLimitOptimized_start array limit
     = await_all (spawn (length array) (nat (min limit (int (length array)))) (pool0 (length array)))"
  by (simp add: mapLimitOptimized_start_def pool0_def Let_def)

lemma start_negative:
  "limit < 0 \<Longrightarrow>
   mapLimitOptimized_start array limit
     = (pool0 (length array))\<lparr>promise := Rejected (Err RangeError ''Invalid array length'')\<rparr>"
  by (simp add: mapLimitOptimized_start_def pool0_def Let_def)

lemma map_inv_start:
  assumes "0 \<le> limit"
  shows "map_inv f (length array) (mapLimitOptimized_start array limit)"
proof -
  let ?n = "length array"
  let ?k = "nat (min limit (int ?n))"
  let ?s = "spawn ?n ?k (pool0 ?n)"
  have c: "core ?n ?s" by (rule spawn_props(1)) (rule core_pool0)
  have f: "results ?s = replicate ?n None" "settled ?s = []" "written ?s = []" "promise ?s = Pending"
    "\<And>e. Thrown e \<notin> set (workers ?s)"
    by (simp_all add: spawn_props pool0_def)
  have "promise_pre ?s" by (simp add: promise_pre_def f)
  then have "promise_ok (await_all ?s)" by (rule promise_ok_await_all)
  then show ?thesis
    using c f by (simp add: start_nonneg[OF assms] map_inv_def)
qed

lemma map_inv_run:
  assumes "0 \<le> limit"
  shows "map_inv (\<lambda>i. asyncFn (array ! i) i) (length array)
           (mapLimitOptimized array limit asyncFn sched)"
proof -
  have "map_inv (\<lambda>i. asyncFn (array ! i) i) (length array)
          (fold (mapLimitOptimized_resume array asyncFn) sched st)"
    if "map_inv (\<lambda>i. asyncFn (array ! i) i) (length array) st" for st
    using that by (induction sched arbitrary: st) (simp_all add: map_inv_resume)
  then show ?thesis
    unfolding mapLimitOptimized_def using map_inv_start[OF assms] by blast
qed

lemma map_run_negative:
  assumes "limit < 0"
  shows "mapLimitOptimized array limit asyncFn sched
           = (pool0 (length array))\<lparr>promise := Rejected (Err RangeError ''Invalid array length'')\<rparr>"
proof -
  have "fold (mapLimitOptimized_resume array asyncFn) sched st = st" if "workers st = []" for st
    using that by (induction sched) (simp_all add: resume_idle)
  then show ?thesis
    unfolding mapLimitOptimized_def by (simp add: start_negative[OF assms] pool0_def)
qed

lemma workers_length_resume [simp]:
  "length (workers (mapLimitOptimized_resume array asyncFn w st)) = length (workers st)"
proof (cases "w < length (workers st) \<and> is_awaiting (workers st ! w)")
  case False
  then show ?thesis by (simp add: resume_idle)
next
  case True
  then obtain i where w: "w < length (workers st)" "workers st ! w = Awaiting i"
    by (cases "workers st ! w") auto
  show ?thesis
    by (cases "asyncFn (array ! i) i")
       (simp_all add: resume_success[OF w] resume_failure[OF w] advance_fields die_fields)
qed

lemma workers_length_run:
  "length (workers (mapLimitOptimized array limit asyncFn sched))
     = nat (min limit (int (length array)))"
proof -
  have "length (workers (fold (mapLimitOptimized_resume array asyncFn) sched st))
          = length (workers st)" for st
    by (induction sched arbitrary: st) simp_all
  moreover have "length (workers (mapLimitOptimized_start array limit))
                   = nat (min limit (int (length array)))"
    by (cases "0 \<le> limit")
       (simp_all add: start_nonneg start_negative spawn_props pool0_def)
  ultimately show ?thesis by (simp add: mapLimitOptimized_def)
qed

lemma resume_keeps_promise:
  assumes p: "promise st \<noteq> Pending"
  shows "promise (mapLimitOptimized_resume array asyncFn w st) = promise st"
proof (cases "w < length (workers st) \<and> is_awaiting (workers st ! w)")
  case False
  then show ?thesis by (simp add: resume_idle)
next
  case True
  then obtain i where w: "w < length (workers st)" "workers st ! w = Awaiting i"
    by (cases "workers st ! w") auto
  show ?thesis
  proof (cases "asyncFn (array ! i) i")
    case (Success v)
    have "mapLimitOptimized_resume array asyncFn w st
            = await_all (advance (length array) w
                (st\<lparr>settled := settled st @ [i], results := array_set (results st) i v,
                    written := written st @ [i]\<rparr>))"
      using w Success by (rule resume_success)
    then show ?thesis
      using p by (simp add: await_all_settled_promise advance_fields)
  next
    case (Failure e)
    have "mapLimitOptimized_resume array asyncFn w st = await_all (die w i e st)"
      using w Failure by (rule resume_failure)
    then show ?thesis
      using p by (simp add: await_all_settled_promise die_fields)
  qed
qed

lemma run_keeps_promise:
  "promise st \<noteq> Pending \<Longrightarrow>
   promise (fold (mapLimitOptimized_resume array asyncFn) rest st) = promise st"
  by (induction rest arbitrary: st) (simp_all add: resume_keeps_promise)

lemma resume_rejects:
  assumes "promise_ok st" "promise st = Pending"
    and w: "w < length (workers st)" "workers st ! w = Awaiting i"
    and f: "asyncFn (array ! i) i = Failure e"
  shows "promise (mapLimitOptimized_resume array asyncFn w st) = Rejected e"
proof -
  from assms(1,2) have "first_thrown (workers st) = None" by (simp add: promise_ok_def)
  then have "first_thrown (workers (die w i e st)) = Some e"
    using w(1) by (simp add: die_fields first_thrown_update)
  moreover have "mapLimitOptimized_resume array asyncFn w st = await_all (die w i e st)"
    using w f by (rule resume_failure)
  ultimately show ?thesis
    using assms(2) by (simp add: await_all_def settle_def die_fields)
qed

lemma map_pending_nonneg:
  assumes "promise (mapLimitOptimized array limit asyncFn sched) = Pending"
  shows "0 \<le> limit"
proof (rule ccontr)
  assume "\<not> 0 \<le> limit"
  then have "limit < 0" by simp
  from map_run_negative[OF this, of array asyncFn sched] assms show False by simp
qed

lemma map_fail_fast:
  assumes p: "promise (mapLimitOptimized array limit asyncFn sched) = Pending"
    and w: "w < length (workers (mapLimitOptimized array limit asyncFn sched))"
      "workers (mapLimitOptimized array limit asyncFn sched) ! w = Awaiting i"
    and f: "asyncFn (array ! i) i = Failure e"
  shows "promise (mapLimitOptimized array limit asyncFn (sched @ w # rest)) = Rejected e"
proof -
  let ?st = "mapLimitOptimized array limit asyncFn sched"
  have "promise_ok ?st"
    using map_inv_run[OF map_pending_nonneg[OF p], of asyncFn array sched]
    by (simp add: map_inv_def)
  then have "promise (mapLimitOptimized_resume array asyncFn w ?st) = Rejected e"
    using p w f by (rule resume_rejects)
  then show ?thesis by (simp add: mapLimitOptimized_def run_keeps_promise)
qed

lemma map_pending_before:
  assumes inv: "map_inv f n st" and ok: "\<forall>k \<in> set (settled st). succeeded (f k)"
    and w: "w < length (workers st)" "workers st ! w = Awaiting i"
  shows "promise st = Pending"
proof -
  from inv have pk: "promise_ok st"
    and th2: "\<And>e. Thrown e \<in> set (workers st) \<Longrightarrow> \<exists>j \<in> set (settled st). f j = Failure e"
    by (auto simp: map_inv_def)
  have nt: "Thrown e \<notin> set (workers st)" for e
  proof
    assume "Thrown e \<in> set (workers st)"
    from th2[OF this] obtain j where "j \<in> set (settled st)" "f j = Failure e" by auto
    with ok show False by auto
  qed
  show ?thesis
  proof (cases "promise st")
    case Pending
    then show ?thesis .
  next
    case (Fulfilled rs)
    with pk have "all_returned (workers st)" by (simp add: promise_ok_def)
    with awaiting_not_all_returned[OF w] show ?thesis by simp
  next
    case (Rejected e)
    with pk nt show ?thesis by (simp add: promise_ok_def)
  qed
qed

lemma map_first_failure:
  assumes ok: "\<forall>k \<in> set (settled (mapLimitOptimized array limit asyncFn sched)).
                 succeeded (asyncFn (array ! k) k)"
    and w: "w < length (workers (mapLimitOptimized array limit asyncFn sched))"
      "workers (mapLimitOptimized array limit asyncFn sched) ! w = Awaiting i"
    and f: "asyncFn (array ! i) i = Failure e"
  shows "promise (mapLimitOptimized array limit asyncFn (sched @ w # rest)) = Rejected e"
proof -
  let ?st = "mapLimitOptimized array limit asyncFn sched"
  have l: "0 \<le> limit"
  proof (rule ccontr)
    assume "\<not> 0 \<le> limit"
    then have "workers ?st = []" by (simp add: map_run_negative pool0_def)
    with w(1) show False by simp
  qed
  have "map_inv (\<lambda>i. asyncFn (array ! i) i) (length array) ?st" using l by (rule map_inv_run)
  then have "promise ?st = Pending" using ok w by (rule map_pending_before)
  then show ?thesis using w f by (rule map_fail_fast)
qed

lemma map_fulfilled_results:
  assumes l: "1 \<le> limit"
    and p: "promise (mapLimitOptimized array limit asyncFn sched) = Fulfilled rs"
  shows "length rs = length array \<and>
         (\<forall>i<length array. \<exists>v. asyncFn (array ! i) i = Success v \<and> rs ! i = Some v)"
proof -
  let ?st = "mapLimitOptimized array limit asyncFn sched"
  let ?n = "length array"
  let ?f = "\<lambda>i. asyncFn (array ! i) i"
  have inv: "map_inv ?f ?n ?st" using l by (intro map_inv_run) simp
  then have c: "core ?n ?st" and pk: "promise_ok ?st"
    and res: "\<And>j. j < ?n \<Longrightarrow> results ?st ! j = (if j \<in> set (settled ?st) then value_of (?f j) else None)"
    and th1: "\<And>j e. j \<in> set (settled ?st) \<Longrightarrow> ?f j = Failure e \<Longrightarrow> Thrown e \<in> set (workers ?st)"
    by (auto simp: map_inv_def)
  from pk p have rs: "rs = results ?st" and ar: "all_returned (workers ?st)"
    by (simp_all add: promise_ok_def)
  have "workers ?st \<noteq> [] \<or> ?n = 0"
    using workers_length_run[of array limit asyncFn sched] l by (cases "?n") auto
  with c ar have s: "set (settled ?st) = {0..<?n}" by (rule all_returned_settled)
  have "\<exists>v. ?f i = Success v \<and> rs ! i = Some v" if "i < ?n" for i
  proof (cases "?f i")
    case (Success v)
    then show ?thesis using res[OF that] s that rs by simp
  next
    case (Failure e)
    from that s have "i \<in> set (settled ?st)" by simp
    from th1[OF this Failure] ar show ?thesis by (auto simp: all_returned_def list_all_iff)
  qed
  moreover have "length rs = ?n" using c rs by (simp add: core_def)
  ultimately show ?thesis by simp
qed

lemma map_quiescent_fulfilled:
  assumes l: "0 \<le> limit"
    and ok: "\<forall>i<length array. succeeded (asyncFn (array ! i) i)"
    and q: "in_flight (mapLimitOptimized array limit asyncFn sched) = 0"
  shows "\<exists>rs. promise (mapLimitOptimized array limit asyncFn sched) = Fulfilled rs"
proof -
  let ?st = "mapLimitOptimized array limit asyncFn sched"
  let ?n = "length array"
  let ?f = "\<lambda>i. asyncFn (array ! i) i"
  have inv: "map_inv ?f ?n ?st" using l by (rule map_inv_run)
  then have c: "core ?n ?st" and pk: "promise_ok ?st"
    and th2: "\<And>e. Thrown e \<in> set (workers ?st) \<Longrightarrow> \<exists>j \<in> set (settled ?st). ?f j = Failure e"
    by (auto simp: map_inv_def)
  have nt: "Thrown e \<notin> set (workers ?st)" for e
  proof
    assume "Thrown e \<in> set (workers ?st)"
    from th2[OF this] obtain j where j: "j \<in> set (settled ?st)" "?f j = Failure e" by auto
    from core_settled_subset[OF c] j(1) c have "j < ?n" by (auto simp: core_def)
    with ok j(2) show False by auto
  qed
  from q nt have ar: "all_returned (workers ?st)" by (intro no_awaiting) simp_all
  show ?thesis
  proof (cases "promise ?st")
    case Pending
    with pk ar show ?thesis by (simp add: promise_ok_def)
  next
    case (Fulfilled rs)
    then show ?thesis by simp
  next
    case (Rejected e)
    with pk nt show ?thesis by (simp add: promise_ok_def)
  qed
qed

lemma resume_settles:
  assumes w: "w < length (workers st)" "workers st ! w = Awaiting i"
  shows "settled (mapLimitOptimized_resume array asyncFn w st) = settled st @ [i]"
proof (cases "asyncFn (array ! i) i")
  case (Success v)
  have "mapLimitOptimized_resume array asyncFn w st
          = await_all (advance (length array) w
              (st\<lparr>settled := settled st @ [i], results := array_set (results st) i v,
                  written := written st @ [i]\<rparr>))"
    using w Success by (rule resume_success)
  then show ?thesis by (simp add: advance_fields)
next
  case (Failure e)
  have "mapLimitOptimized_resume array asyncFn w st = await_all (die w i e st)"
    using w Failure by (rule resume_failure)
  then show ?thesis by (simp add: die_fields)
qed

lemma map_completes_from:
  assumes "map_inv (\<lambda>i. asyncFn (array ! i) i) (length array) st"
  shows "\<exists>rest. in_flight (fold (mapLimitOptimized_resume array asyncFn) rest st) = 0"
  using assms
proof (induction "length array - length (settled st)" arbitrary: st rule: less_induct)
  case less
  show ?case
  proof (cases "in_flight st = 0")
    case True
    then have "in_flight (fold (mapLimitOptimized_resume array asyncFn) [] st) = 0" by simp
    then show ?thesis by (rule exI)
  next
    case False
    then obtain w i where w: "w < length (workers st)" "workers st ! w = Awaiting i"
      by (rule some_awaiting)
    let ?st = "mapLimitOptimized_resume array asyncFn w st"
    have inv: "map_inv (\<lambda>i. asyncFn (array ! i) i) (length array) ?st"
      using less.prems by (rule map_inv_resume)
    then have "length (settled ?st) \<le> length array"
      by (intro core_settled_le) (simp add: map_inv_def)
    then have "length array - length (settled ?st) < length array - length (settled st)"
      by (simp add: resume_settles[OF w])
    from less.hyps[OF this inv] obtain rest
      where "in_flight (fold (mapLimitOptimized_resume array asyncFn) rest ?st) = 0" ..
    then have "in_flight (fold (mapLimitOptimized_resume array asyncFn) (w # rest) st) = 0"
      by simp
    then show ?thesis by (rule exI)
  qed
qed

lemma map_completes:
  assumes "0 \<le> limit"
  shows "\<exists>rest. in_flight (mapLimitOptimized array limit asyncFn (sched @ rest)) = 0"
proof -
  have "map_inv (\<lambda>i. asyncFn (array ! i) i) (length array)
          (mapLimitOptimized array limit asyncFn sched)"
    using assms by (rule map_inv_run)
  then have "\<exists>rest. in_flight (fold (mapLimitOptimized_resume array asyncFn) rest
                 (mapLimitOptimized array limit asyncFn sched)) = 0"
    by (rule map_completes_from)
  then show ?thesis by (simp add: mapLimitOptimized_def)
qed

lemma map_written_count:
  "count_list (written (mapLimitOptimized array limit asyncFn sched)) i
     = (if i \<in> set (settled (mapLimitOptimized array limit asyncFn sched)) \<and>
           succeeded (asyncFn (array ! i) i) then 1 else 0)"
proof (cases "0 \<le> limit")
  case True
  let ?st = "mapLimitOptimized array limit asyncFn sched"
  have inv: "map_inv (\<lambda>i. asyncFn (array ! i) i) (length array) ?st"
    using True by (rule map_inv_run)
  then have "core (length array) ?st" by (simp add: map_inv_def)
  then have "distinct (settled ?st)" by (rule core_settled_distinct)
  moreover have "written ?st = filter (\<lambda>i. succeeded (asyncFn (array ! i) i)) (settled ?st)"
    using inv by (simp add: map_inv_def)
  ultimately show ?thesis by (simp add: count_list_filter distinct_count)
next
  case False
  then have "limit < 0" by simp
  then show ?thesis by (simp add: map_run_negative pool0_def)
qed

lemma map_unsettled_le:
  "length (unsettled (mapLimitOptimized array limit asyncFn sched)) \<le> nat limit"
proof (cases "0 \<le> limit")
  case True
  let ?st = "mapLimitOptimized array limit asyncFn sched"
  have "map_inv (\<lambda>i. asyncFn (array ! i) i) (length array) ?st"
    using True by (rule map_inv_run)
  then have "core (length array) ?st" by (simp add: map_inv_def)
  then have "length (unsettled ?st) = in_flight ?st" by (rule core_unsettled)
  also have "\<dots> \<le> length (workers ?st)" by (rule in_flight_le)
  also have "\<dots> = nat (min limit (int (length array)))" by (rule workers_length_run)
  also have "\<dots> \<le> nat limit" by simp
  finally show ?thesis .
next
  case False
  then have "limit < 0" by simp
  then show ?thesis by (simp add: map_run_negative pool0_def unsettled_def)
qed

lemma map_started:
  "started (mapLimitOptimized array limit asyncFn sched)
     = [0..<iterator (mapLimitOptimized array limit asyncFn sched)]"
proof (cases "0 \<le> limit")
  case True
  have "map_inv (\<lambda>i. asyncFn (array ! i) i) (length array)
          (mapLimitOptimized array limit asyncFn sched)"
    using True by (rule map_inv_run)
  then show ?thesis by (simp add: map_inv_def core_def)
next
  case False
  then have "limit < 0" by simp
  then show ?thesis by (simp add: map_run_negative pool0_def)
qed

subsection \<open>parallelLimitOptimized\<close>

lemma core_thrown:
  assumes c: "core n st" and w: "w < length (workers st)" "workers st ! w = Awaiting i"
    and s2: "settled st2 = settled st @ [i]" "workers st2 = (workers st)[w := Thrown e]"
      "iterator st2 = iterator st" "started st2 = started st" "length (results st2) = n"
  shows "core n st2"
proof -
  have cnt: "count_list ((workers st)[w := y]) a + (if Awaiting i = a then 1 else 0)
           = count_list (workers st) a + (if y = a then 1 else 0)" for y a
    using count_list_update[OF w(1), of y a] w(2) by simp
  have fl: "length (filter is_awaiting ((workers st)[w := y])) + 1
           = length (filter is_awaiting (workers st)) + (if is_awaiting y then 1 else 0)" for y
    using filter_length_update[OF w(1), of is_awaiting y] w(2) by simp
  have conserve: "count_list (workers st) (Awaiting j) + count_list (settled st) j
             = (if j < iterator st then 1 else 0)" for j
    using c by (simp add: core_def)
  have i: "i < iterator st" using c w by (rule core_awaiting_lt)
  show ?thesis
    unfolding core_def in_flight_def
  proof (intro conjI allI impI)
    show "length (results st2) = n" by fact
    show "iterator st2 \<le> n" using c s2 by (simp add: core_def)
    show "started st2 = [0..<iterator st2]" using c s2 by (simp add: core_def)
    show "length (filter is_awaiting (workers st2)) + length (settled st2) = iterator st2"
      using fl[of "Thrown e"] c s2 by (simp add: core_def in_flight_def)
    show "count_list (workers st2) (Awaiting j) + count_list (settled st2) j
            = (if j < iterator st2 then 1 else 0)" for j
      using cnt[of "Thrown e" "Awaiting j"] conserve[of j] i s2
      by (auto split: if_splits)
    show "iterator st2 = n" if "Returned \<in> set (workers st2)"
    proof -
      from that s2 have "Returned \<in> set ((workers st)[w := Thrown e])" by simp
      from in_set_update_cases[OF this] have "Returned \<in> set (workers st)" by simp
      with c s2 show ?thesis by (simp add: core_def)
    qed
  qed
qed

lemma first_thrown_present:
  assumes "Thrown x \<in> set ws"
  obtains e where "first_thrown ws = Some e"
proof (cases "first_thrown ws")
  case None
  with assms show ?thesis by (simp add: first_thrown_None)
next
  case (Some e)
  then show ?thesis by (rule that)
qed

lemma par_idle:
  "\<not> (w < length (workers st) \<and> is_awaiting (workers st ! w)) \<Longrightarrow>
   parallelLimitOptimized_resume tasks w st = st"
  by (cases "workers st ! w") (auto simp: parallelLimitOptimized_resume_def)

text \<open>A worker that resumes ends with the \<^verbatim>\<open>ReferenceError\<close>, whatever its task did.\<close>

lemma par_resume_fields:
  assumes w: "w < length (workers st)" "workers st ! w = Awaiting i"
  shows "settled (parallelLimitOptimized_resume tasks w st) = settled st @ [i]"
    "workers (parallelLimitOptimized_resume tasks w st)
       = (workers st)[w := Thrown (not_defined ''onProgress'')]"
    "iterator (parallelLimitOptimized_resume tasks w st) = iterator st"
    "started (parallelLimitOptimized_resume tasks w st) = started st"
    "length (results (parallelLimitOptimized_resume tasks w st))
       = max (length (results st)) (Suc i)"
  using w
  by (cases "tasks ! i";
      simp add: parallelLimitOptimized_resume_def catch_block_def report_def Let_def
        array_set_def)+

lemma par_resume_promise:
  assumes w: "w < length (workers st)" "workers st ! w = Awaiting i"
  obtains e where
    "first_thrown ((workers st)[w := Thrown (not_defined ''onProgress'')]) = Some e"
    "promise (parallelLimitOptimized_resume tasks w st) = settle (Rejected e) (promise st)"
proof -
  let ?ws = "(workers st)[w := Thrown (not_defined ''onProgress'')]"
  have "Thrown (not_defined ''onProgress'') \<in> set ?ws" using w(1) by (simp add: set_update_memI)
  then obtain e where e: "first_thrown ?ws = Some e" by (rule first_thrown_present)
  have "promise (parallelLimitOptimized_resume tasks w st) = settle (Rejected e) (promise st)"
    using w e
    by (cases "tasks ! i")
       (simp_all add: parallelLimitOptimized_resume_def catch_block_def report_def Let_def
          await_all_def)
  with e show ?thesis by (rule that)
qed

lemma par_inv_resume:
  assumes inv: "par_inv (length tasks) st"
  shows "par_inv (length tasks) (parallelLimitOptimized_resume tasks w st)"
proof (cases "w < length (workers st) \<and> is_awaiting (workers st ! w)")
  case False
  then show ?thesis using inv by (simp add: par_idle)
next
  case True
  then obtain i where w: "w < length (workers st)" "workers st ! w = Awaiting i"
    by (cases "workers st ! w") auto
  let ?n = "length tasks"
  let ?E = "not_defined ''onProgress''"
  let ?st = "parallelLimitOptimized_resume tasks w st"
  from inv have c: "core ?n st" and pk: "promise_ok st"
    and nr: "Returned \<notin> set (workers st)"
    and only: "\<And>e. Thrown e \<in> set (workers st) \<Longrightarrow> e = ?E"
    by (auto simp: par_inv_def)
  note i = core_awaiting_lt[OF c w]
  have len: "length (results st) = ?n" using c by (simp add: core_def)
  note f = par_resume_fields[OF w, of tasks]
  have ws: "workers ?st = (workers st)[w := Thrown ?E]" by (rule f(2))
  have c2: "core ?n ?st"
    using c w f(1,2,3,4) by (rule core_thrown) (use f(5) i(2) len in simp)
  obtain e1 where e1: "first_thrown ((workers st)[w := Thrown ?E]) = Some e1"
    and p: "promise ?st = settle (Rejected e1) (promise st)"
    using w by (rule par_resume_promise)
  have pk2: "promise_ok ?st"
  proof (cases "promise st")
    case Pending
    with p have "promise ?st = Rejected e1" by (simp add: settle_def)
    moreover from e1 have "Thrown e1 \<in> set (workers ?st)"
      unfolding ws by (rule first_thrown_Some)
    ultimately show ?thesis by (simp add: promise_ok_def)
  next
    case (Fulfilled rs)
    with pk have "all_returned (workers st)" by (simp add: promise_ok_def)
    with awaiting_not_all_returned[OF w] show ?thesis by simp
  next
    case (Rejected e)
    with p have r: "promise ?st = Rejected e" by (simp add: settle_def)
    from Rejected pk have "Thrown e \<in> set (workers st)" by (simp add: promise_ok_def)
    then have "Thrown e \<in> set ((workers st)[w := Thrown ?E])"
      using w(2) by (intro in_set_update_other) simp_all
    with r show ?thesis by (simp add: promise_ok_def ws)
  qed
  show ?thesis
    unfolding par_inv_def
  proof (intro conjI allI impI)
    show "core ?n ?st" by (rule c2)
    show "promise_ok ?st" by (rule pk2)
    show "Returned \<notin> set (workers ?st)"
    proof
      assume "Returned \<in> set (workers ?st)"
      then have "Returned \<in> set ((workers st)[w := Thrown ?E])" by (simp add: ws)
      from in_set_update_cases[OF this] nr show False by simp
    qed
    show "e = ?E" if "Thrown e \<in> set (workers ?st)" for e
    proof -
      from that have "Thrown e \<in> set ((workers st)[w := Thrown ?E])" by (simp add: ws)
      from in_set_update_cases[OF this] only[of e] show ?thesis by auto
    qed
    show "Thrown ?E \<in> set (workers ?st)"
      using w(1) by (simp add: ws set_update_memI)
  qed
qed

lemma core_ppool0: "core n (ppool0 n)"
  by (simp add: core_def ppool0_def in_flight_def)

lemma par_start_nonneg:
  "0 \<le> limit \<Longrightarrow>
   parallelLimitOptimized_start tasks limit
     = await_all (spawn (length tasks) (nat (min limit (int (length tasks)))) (ppool0 (length tasks)))"
  by (simp add: parallelLimitOptimized_start_def ppool0_def Let_def)

lemma par_start_negative:
  "limit < 0 \<Longrightarrow>
   parallelLimitOptimized_start tasks limit
     = (ppool0 (length tasks))\<lparr>promise := Rejected (Err RangeError ''Invalid array length'')\<rparr>"
  by (simp add: parallelLimitOptimized_start_def ppool0_def Let_def)

text \<open>A worker that starts while entries are left takes one.\<close>

lemma spawn_no_returned:
  "iterator st + k \<le> n \<Longrightarrow> Returned \<notin> set (workers st) \<Longrightarrow>
   Returned \<notin> set (workers (spawn n k st))"
proof (induction k arbitrary: st)
  case 0
  then show ?case by simp
next
  case (Suc k)
  from Suc.prems(1) have lt: "iterator st < n" by simp
  have "iterator (spawn_step n st) + k \<le> n" using Suc.prems(1) lt by (simp add: spawn_step_fields)
  moreover have "Returned \<notin> set (workers (spawn_step n st))"
    using Suc.prems(2) lt by (simp add: spawn_step_fields)
  ultimately show ?case unfolding spawn_Suc by (rule Suc.IH)
qed

lemma par_inv_start:
  assumes "0 \<le> limit"
  shows "par_inv (length tasks) (parallelLimitOptimized_start tasks limit)"
proof -
  let ?n = "length tasks"
  let ?k = "nat (min limit (int ?n))"
  let ?s = "spawn ?n ?k (ppool0 ?n)"
  have c: "core ?n ?s" by (rule spawn_props(1)) (rule core_ppool0)
  have f: "settled ?s = []" "promise ?s = Pending" "\<And>e. Thrown e \<notin> set (workers ?s)"
    by (simp_all add: spawn_props ppool0_def)
  have nr: "Returned \<notin> set (workers ?s)"
    by (rule spawn_no_returned) (simp_all add: ppool0_def)
  have "promise_pre ?s" by (simp add: promise_pre_def f)
  then have "promise_ok (await_all ?s)" by (rule promise_ok_await_all)
  then show ?thesis
    using c f nr by (simp add: par_start_nonneg[OF assms] par_inv_def)
qed

lemma par_inv_run:
  assumes "0 \<le> limit"
  shows "par_inv (length tasks) (parallelLimitOptimized tasks limit sched)"
proof -
  have "par_inv (length tasks) (fold (parallelLimitOptimized_resume tasks) sched st)"
    if "par_inv (length tasks) st" for st
    using that by (induction sched arbitrary: st) (simp_all add: par_inv_resume)
  then show ?thesis
    unfolding parallelLimitOptimized_def using par_inv_start[OF assms] by blast
qed

lemma par_run_negative:
  assumes "limit < 0"
  shows "parallelLimitOptimized tasks limit sched
           = (ppool0 (length tasks))\<lparr>promise := Rejected (Err RangeError ''Invalid array length'')\<rparr>"
proof -
  have "fold (parallelLimitOptimized_resume tasks) sched st = st" if "workers st = []" for st
    using that by (induction sched) (simp_all add: par_idle)
  then show ?thesis
    unfolding parallelLimitOptimized_def by (simp add: par_start_negative[OF assms] ppool0_def)
qed

lemma par_workers_length_resume [simp]:
  "length (workers (parallelLimitOptimized_resume tasks w st)) = length (workers st)"
proof (cases "w < length (workers st) \<and> is_awaiting (workers st ! w)")
  case False
  then show ?thesis by (simp add: par_idle)
next
  case True
  then obtain i where w: "w < length (workers st)" "workers st ! w = Awaiting i"
    by (cases "workers st ! w") auto
  show ?thesis by (simp add: par_resume_fields[OF w])
qed

lemma par_workers_length_run:
  "length (workers (parallelLimitOptimized tasks limit sched))
     = nat (min limit (int (length tasks)))"
proof -
  have "length (workers (fold (parallelLimitOptimized_resume tasks) sched st))
          = length (workers st)" for st
    by (induction sched arbitrary: st) simp_all
  moreover have "length (workers (parallelLimitOptimized_start tasks limit))
                   = nat (min limit (int (length tasks)))"
    by (cases "0 \<le> limit")
       (simp_all add: par_start_nonneg par_start_negative spawn_props ppool0_def)
  ultimately show ?thesis by (simp add: parallelLimitOptimized_def)
qed

lemma par_unsettled_le:
  "length (unsettled (parallelLimitOptimized tasks limit sched)) \<le> nat limit"
proof (cases "0 \<le> limit")
  case True
  let ?st = "parallelLimitOptimized tasks limit sched"
  have "par_inv (length tasks) ?st" using True by (rule par_inv_run)
  then have "core (length tasks) ?st" by (simp add: par_inv_def)
  then have "length (unsettled ?st) = in_flight ?st" by (rule core_unsettled)
  also have "\<dots> \<le> length (workers ?st)" by (rule in_flight_le)
  also have "\<dots> = nat (min limit (int (length tasks)))" by (rule par_workers_length_run)
  also have "\<dots> \<le> nat limit" by simp
  finally show ?thesis .
next
  case False
  then have "limit < 0" by simp
  then show ?thesis by (simp add: par_run_negative ppool0_def unsettled_def)
qed

lemma par_started:
  "started (parallelLimitOptimized tasks limit sched)
     = [0..<iterator (parallelLimitOptimized tasks limit sched)]"
proof (cases "0 \<le> limit")
  case True
  have "par_inv (length tasks) (parallelLimitOptimized tasks limit sched)"
    using True by (rule par_inv_run)
  then show ?thesis by (simp add: par_inv_def core_def)
next
  case False
  then have "limit < 0" by simp
  then show ?thesis by (simp add: par_run_negative ppool0_def)
qed

lemma par_never_fulfils:
  assumes "1 \<le> limit" "tasks \<noteq> []"
  shows "promise (parallelLimitOptimized tasks limit sched) \<noteq> Fulfilled rs"
proof
  let ?st = "parallelLimitOptimized tasks limit sched"
  assume p: "promise ?st = Fulfilled rs"
  have "par_inv (length tasks) ?st" using assms(1) by (intro par_inv_run) simp
  then have pk: "promise_ok ?st" and nr: "Returned \<notin> set (workers ?st)"
    by (simp_all add: par_inv_def)
  from pk p have ar: "all_returned (workers ?st)" by (simp add: promise_ok_def)
  have "length (workers ?st) \<noteq> 0"
    using par_workers_length_run[of tasks limit sched] assms by (cases tasks) auto
  then obtain x xs where "workers ?st = x # xs" by (cases "workers ?st") auto
  with ar nr show False by (simp add: all_returned_def)
qed

lemma par_rejects:
  assumes "settled (parallelLimitOptimized tasks limit sched) \<noteq> []"
  shows "promise (parallelLimitOptimized tasks limit sched) = Rejected (not_defined ''onProgress'')"
proof -
  let ?st = "parallelLimitOptimized tasks limit sched"
  let ?E = "not_defined ''onProgress''"
  have l: "0 \<le> limit"
  proof (rule ccontr)
    assume "\<not> 0 \<le> limit"
    then have "settled ?st = []" by (simp add: par_run_negative ppool0_def)
    with assms show False by simp
  qed
  have "par_inv (length tasks) ?st" using l by (rule par_inv_run)
  with assms have pk: "promise_ok ?st" and th: "Thrown ?E \<in> set (workers ?st)"
    and only: "\<And>e. Thrown e \<in> set (workers ?st) \<Longrightarrow> e = ?E"
    by (auto simp: par_inv_def)
  show ?thesis
  proof (cases "promise ?st")
    case Pending
    with pk have "first_thrown (workers ?st) = None" by (simp add: promise_ok_def)
    with th show ?thesis by (simp add: first_thrown_None)
  next
    case (Fulfilled rs)
    with pk have "all_returned (workers ?st)" by (simp add: promise_ok_def)
    with th show ?thesis by (auto simp: all_returned_def list_all_iff)
  next
    case (Rejected e)
    with pk have "Thrown e \<in> set (workers ?st)" by (simp add: promise_ok_def)
    from only[OF this] Rejected show ?thesis by simp
  qed
qed

lemma par_settled_grows:
  "settled st \<noteq> [] \<Longrightarrow> settled (fold (parallelLimitOptimized_resume tasks) rest st) \<noteq> []"
proof (induction rest arbitrary: st)
  case Nil
  then show ?case by simp
next
  case (Cons w rest)
  have "settled (parallelLimitOptimized_resume tasks w st) \<noteq> []"
  proof (cases "w < length (workers st) \<and> is_awaiting (workers st ! w)")
    case False
    then show ?thesis using Cons.prems by (simp add: par_idle)
  next
    case True
    then obtain i where w: "w < length (workers st)" "workers st ! w = Awaiting i"
      by (cases "workers st ! w") auto
    show ?thesis by (simp add: par_resume_fields[OF w])
  qed
  then show ?case by (simp add: Cons.IH)
qed

lemma par_first_settlement_rejects:
  assumes w: "w < length (workers (parallelLimitOptimized tasks limit sched))"
    "workers (parallelLimitOptimized tasks limit sched) ! w = Awaiting i"
  shows "promise (parallelLimitOptimized tasks limit (sched @ w # rest))
           = Rejected (not_defined ''onProgress'')"
proof (rule par_rejects)
  let ?st = "parallelLimitOptimized tasks limit sched"
  have "settled (parallelLimitOptimized_resume tasks w ?st) \<noteq> []"
    by (simp add: par_resume_fields[OF w])
  then have "settled (fold (parallelLimitOptimized_resume tasks) rest
               (parallelLimitOptimized_resume tasks w ?st)) \<noteq> []"
    by (rule par_settled_grows)
  then show "settled (parallelLimitOptimized tasks limit (sched @ w # rest)) \<noteq> []"
    by (simp add: parallelLimitOptimized_def)
qed

section \<open>Properties of Promise.myAll and Promise.myAllSettled\<close>

lemma array_set_length: "length (array_set xs i v) = max (length xs) (Suc i)"
  by (simp add: array_set_def)

lemma array_set_nth:
  "j < length (array_set xs i v) \<Longrightarrow>
   array_set xs i v ! j = (if j = i then Some v else if j < length xs then xs ! j else None)"
  by (auto simp: array_set_def nth_append nth_list_update)

lemma ran_all:
  assumes "distinct xs" "set xs \<subseteq> {0..<n}" "length xs = n"
  shows "set xs = {0..<n}"
proof (rule card_subset_eq)
  show "finite {0..<n}" by simp
  show "set xs \<subseteq> {0..<n}" by fact
  show "card (set xs) = card {0..<n}" using assms(1,3) by (simp add: distinct_card)
qed

lemma ran_fewer:
  assumes "distinct xs" "set xs \<subseteq> {0..<n}" "i < n" "i \<notin> set xs"
  shows "length xs < n"
proof -
  have "set xs \<subset> {0..<n}" using assms(2,3,4) by auto
  then have "card (set xs) < card {0..<n}" by (intro psubset_card_mono) simp_all
  then show ?thesis using assms(1) by (simp add: distinct_card)
qed

lemma myAll_react_keeps:
  "all_promise st \<noteq> Pending \<Longrightarrow> all_promise (myAll_react ps i st) = all_promise st"
  by (simp add: myAll_react_def settle_def Let_def split: outcome.splits)

lemma myAll_run_keeps:
  "all_promise st \<noteq> Pending \<Longrightarrow> all_promise (fold (myAll_react ps) rest st) = all_promise st"
  by (induction rest arbitrary: st) (simp_all add: myAll_react_keeps)

lemma myAll_fail_fast:
  assumes p: "all_promise (myAll (Array ps) sched) = Pending"
    and i: "i < length ps" "i \<notin> set (all_ran (myAll (Array ps) sched))"
    and f: "ps ! i = Failure e"
  shows "all_promise (myAll (Array ps) (sched @ i # rest)) = Rejected e"
proof -
  let ?st = "fold (myAll_react ps) sched (myAll_start (Array ps))"
  from i(1) have ne: "length ps \<noteq> 0" by auto
  then have eq: "myAll (Array ps) s = fold (myAll_react ps) s (myAll_start (Array ps))" for s
    by (simp add: myAll_def)
  have "all_promise (myAll_react ps i ?st) = Rejected e"
    using p i f by (simp add: eq myAll_react_def settle_def Let_def)
  then show ?thesis by (simp add: eq myAll_run_keeps)
qed

lemma myAll_react_idle:
  "\<not> (i < length ps \<and> i \<notin> set (all_ran st)) \<Longrightarrow> myAll_react ps i st = st"
  by (auto simp: myAll_react_def)

lemma myAll_react_fields:
  assumes "i < length ps" "i \<notin> set (all_ran st)"
  shows "all_ran (myAll_react ps i st) = all_ran st @ [i]"
    "completedCount (myAll_react ps i st)
       = (if succeeded (ps ! i) then Suc (completedCount st) else completedCount st)"
    "all_promise (myAll_react ps i st)
       = (case ps ! i of
            Success v \<Rightarrow>
              if Suc (completedCount st) = length ps
              then settle (Fulfilled (array_set (all_results st) i v)) (all_promise st)
              else all_promise st
          | Failure e \<Rightarrow> settle (Rejected e) (all_promise st))"
  using assms by (simp_all add: myAll_react_def Let_def split: outcome.splits)

lemma all_inv_react:
  assumes inv: "all_inv ps st"
  shows "all_inv ps (myAll_react ps i st)"
proof (cases "i < length ps \<and> i \<notin> set (all_ran st)")
  case False
  then show ?thesis using inv by (simp add: myAll_react_idle)
next
  case True
  then have i: "i < length ps" "i \<notin> set (all_ran st)" by simp_all
  from inv have d: "distinct (all_ran st)" and sub: "set (all_ran st) \<subseteq> {0..<length ps}"
    and cnt: "completedCount st = length (filter (\<lambda>k. succeeded (ps ! k)) (all_ran st))"
    and pend: "(\<forall>k \<in> set (all_ran st). succeeded (ps ! k)) \<Longrightarrow>
               length (all_ran st) < length ps \<Longrightarrow> all_promise st = Pending"
    by (auto simp: all_inv_def)
  note f = myAll_react_fields[OF i]
  show ?thesis
    unfolding all_inv_def f
  proof (intro conjI impI)
    show "distinct (all_ran st @ [i])" using d i by simp
    show "set (all_ran st @ [i]) \<subseteq> {0..<length ps}" using sub i by simp
    show "(if succeeded (ps ! i) then Suc (completedCount st) else completedCount st)
            = length (filter (\<lambda>k. succeeded (ps ! k)) (all_ran st @ [i]))"
      using cnt by simp
    assume a: "(\<forall>k \<in> set (all_ran st @ [i]). succeeded (ps ! k)) \<and>
               length (all_ran st @ [i]) < length ps"
    then have ok: "\<forall>k \<in> set (all_ran st). succeeded (ps ! k)" and si: "succeeded (ps ! i)"
      and lt: "Suc (length (all_ran st)) < length ps"
      by simp_all
    from ok have "filter (\<lambda>k. succeeded (ps ! k)) (all_ran st) = all_ran st" by simp
    with cnt have c: "completedCount st = length (all_ran st)" by simp
    have p: "all_promise st = Pending" using ok lt by (intro pend) simp_all
    from si obtain v where "ps ! i = Success v" by (cases "ps ! i") simp_all
    then show "(case ps ! i of
                  Success v \<Rightarrow>
                    if Suc (completedCount st) = length ps
                    then settle (Fulfilled (array_set (all_results st) i v)) (all_promise st)
                    else all_promise st
                | Failure e \<Rightarrow> settle (Rejected e) (all_promise st)) = Pending"
      using c lt p by simp
  qed
qed

lemma all_inv_run:
  assumes "ps \<noteq> []"
  shows "all_inv ps (myAll (Array ps) sched)"
proof -
  have "all_inv ps (fold (myAll_react ps) sched st)" if "all_inv ps st" for st
    using that by (induction sched arbitrary: st) (simp_all add: all_inv_react)
  moreover have "all_inv ps (myAll_start (Array ps))"
    using assms by (simp add: all_inv_def myAll_start_def)
  ultimately show ?thesis using assms by (simp add: myAll_def)
qed

lemma myAll_first_failure:
  assumes ok: "\<forall>k \<in> set (all_ran (myAll (Array ps) sched)). succeeded (ps ! k)"
    and i: "i < length ps" "i \<notin> set (all_ran (myAll (Array ps) sched))"
    and f: "ps ! i = Failure e"
  shows "all_promise (myAll (Array ps) (sched @ i # rest)) = Rejected e"
proof -
  let ?st = "myAll (Array ps) sched"
  from i(1) have ne: "ps \<noteq> []" by auto
  then have inv: "all_inv ps ?st" by (rule all_inv_run)
  then have "length (all_ran ?st) < length ps"
    using i by (intro ran_fewer[where i = i]) (simp_all add: all_inv_def)
  with inv ok have "all_promise ?st = Pending" by (simp add: all_inv_def)
  then show ?thesis using i f by (rule myAll_fail_fast)
qed

lemma settled_react_idle:
  "\<not> (i < length ps \<and> i \<notin> set (settled_ran st)) \<Longrightarrow> myAllSettled_react ps i st = st"
  by (auto simp: myAllSettled_react_def)

lemma settled_react_fields:
  assumes "i < length ps" "i \<notin> set (settled_ran st)" "settled_promise st = Pending"
  shows "settled_ran (myAllSettled_react ps i st) = settled_ran st @ [i]"
    "settled_results (myAllSettled_react ps i st)
       = array_set (settled_results st) i (settled_record (ps ! i))"
    "settledCount (myAllSettled_react ps i st) = Suc (settledCount st)"
    "settled_promise (myAllSettled_react ps i st)
       = (if Suc (settledCount st) = length ps
          then Fulfilled (array_set (settled_results st) i (settled_record (ps ! i)))
          else Pending)"
  using assms by (simp_all add: myAllSettled_react_def Let_def settle_def)

lemma settled_inv_react:
  assumes inv: "settled_inv ps st"
  shows "settled_inv ps (myAllSettled_react ps i st)"
proof (cases "i < length ps \<and> i \<notin> set (settled_ran st)")
  case False
  then show ?thesis using inv by (simp add: settled_react_idle)
next
  case True
  then have i: "i < length ps" "i \<notin> set (settled_ran st)" by simp_all
  from inv have cnt: "settledCount st = length (settled_ran st)"
    and d: "distinct (settled_ran st)" and sub: "set (settled_ran st) \<subseteq> {0..<length ps}"
    and len: "length (settled_results st) \<le> length ps"
    and dom: "\<And>j. j \<in> set (settled_ran st) \<Longrightarrow> j < length (settled_results st)"
    and res: "\<And>j. j < length (settled_results st) \<Longrightarrow>
                settled_results st ! j
                  = (if j \<in> set (settled_ran st) then Some (settled_record (ps ! j)) else None)"
    and pr: "settled_promise st
               = (if settledCount st = length ps then Fulfilled (settled_results st) else Pending)"
    by (auto simp: settled_inv_def)
  have "length (settled_ran st) < length ps" using d sub i by (rule ran_fewer)
  with cnt pr have pend: "settled_promise st = Pending" by simp
  note f = settled_react_fields[OF i pend]
  let ?r = "array_set (settled_results st) i (settled_record (ps ! i))"
  show ?thesis
    unfolding settled_inv_def f
  proof (intro conjI ballI allI impI)
    show "Suc (settledCount st) = length (settled_ran st @ [i])" using cnt by simp
    show "distinct (settled_ran st @ [i])" using d i by simp
    show "set (settled_ran st @ [i]) \<subseteq> {0..<length ps}" using sub i by simp
    show "length ?r \<le> length ps" using len i by (simp add: array_set_length)
    show "j < length ?r" if "j \<in> set (settled_ran st @ [i])" for j
      using that dom[of j] by (auto simp: array_set_length)
    show "?r ! j = (if j \<in> set (settled_ran st @ [i]) then Some (settled_record (ps ! j)) else None)"
      if "j < length ?r" for j
    proof (cases "j = i")
      case True
      then show ?thesis using that by (simp add: array_set_nth)
    next
      case False
      show ?thesis
      proof (cases "j < length (settled_results st)")
        case True
        then show ?thesis using that False res[of j] by (simp add: array_set_nth)
      next
        case False
        with dom[of j] have "j \<notin> set (settled_ran st)" by auto
        with False \<open>j \<noteq> i\<close> that show ?thesis by (simp add: array_set_nth)
      qed
    qed
    show "(if Suc (settledCount st) = length ps then Fulfilled ?r else Pending)
            = (if Suc (settledCount st) = length ps then Fulfilled ?r else Pending)" ..
  qed
qed

lemma settled_inv_start:
  "ps \<noteq> [] \<Longrightarrow> settled_inv ps (myAllSettled_start (Array ps))"
  by (simp add: settled_inv_def myAllSettled_start_def)

lemma settled_inv_run:
  assumes "ps \<noteq> []"
  shows "settled_inv ps (myAllSettled (Array ps) sched)"
proof -
  have "settled_inv ps (fold (myAllSettled_react ps) sched st)" if "settled_inv ps st" for st
    using that by (induction sched arbitrary: st) (simp_all add: settled_inv_react)
  then show ?thesis
    using assms settled_inv_start[OF assms] by (simp add: myAllSettled_def)
qed

lemma settled_inv_all:
  assumes inv: "settled_inv ps st" and n: "settledCount st = length ps"
  shows "settled_results st = map (\<lambda>p. Some (settled_record p)) ps"
proof -
  from inv have cnt: "settledCount st = length (settled_ran st)"
    and d: "distinct (settled_ran st)" and sub: "set (settled_ran st) \<subseteq> {0..<length ps}"
    and len: "length (settled_results st) \<le> length ps"
    and dom: "\<And>j. j \<in> set (settled_ran st) \<Longrightarrow> j < length (settled_results st)"
    and res: "\<And>j. j < length (settled_results st) \<Longrightarrow>
                settled_results st ! j
                  = (if j \<in> set (settled_ran st) then Some (settled_record (ps ! j)) else None)"
    by (auto simp: settled_inv_def)
  have all: "set (settled_ran st) = {0..<length ps}"
    using d sub by (rule ran_all) (use cnt n in simp)
  have l: "length (settled_results st) = length ps"
  proof (cases "length ps")
    case 0
    with len show ?thesis by simp
  next
    case (Suc k)
    with all have "k \<in> set (settled_ran st)" by simp
    from dom[OF this] Suc len show ?thesis by simp
  qed
  show ?thesis
  proof (rule nth_equalityI)
    show "length (settled_results st) = length (map (\<lambda>p. Some (settled_record p)) ps)"
      using l by simp
    show "settled_results st ! j = map (\<lambda>p. Some (settled_record p)) ps ! j"
      if "j < length (settled_results st)" for j
      using that res[of j] all l by simp
  qed
qed

lemma settled_ran_react:
  "set (settled_ran (myAllSettled_react ps i st))
     = set (settled_ran st) \<union> ({i} \<inter> {0..<length ps})"
  by (auto simp: myAllSettled_react_def Let_def)

lemma settled_ran_run:
  "set (settled_ran (fold (myAllSettled_react ps) sched st))
     = set (settled_ran st) \<union> (set sched \<inter> {0..<length ps})"
proof (induction sched arbitrary: st)
  case Nil
  show ?case by simp
next
  case (Cons i sched)
  show ?case by (simp add: Cons.IH settled_ran_react) blast
qed

lemma myAllSettled_never_rejects:
  "settled_promise (myAllSettled (Array ps) sched) \<noteq> Rejected e"
proof (cases "ps = []")
  case True
  then show ?thesis by (simp add: myAllSettled_def myAllSettled_start_def)
next
  case False
  from settled_inv_run[OF this, of sched] show ?thesis by (simp add: settled_inv_def)
qed

lemma myAllSettled_fulfilled:
  assumes "settled_promise (myAllSettled (Array ps) sched) = Fulfilled rs"
  shows "rs = map (\<lambda>p. Some (settled_record p)) ps"
proof (cases "ps = []")
  case True
  then show ?thesis using assms by (simp add: myAllSettled_def myAllSettled_start_def)
next
  case False
  let ?st = "myAllSettled (Array ps) sched"
  have inv: "settled_inv ps ?st" using False by (rule settled_inv_run)
  with assms have n: "settledCount ?st = length ps" and rs: "rs = settled_results ?st"
    by (auto simp: settled_inv_def split: if_splits)
  from settled_inv_all[OF inv n] rs show ?thesis by simp
qed

lemma myAllSettled_complete:
  assumes "{0..<length ps} \<subseteq> set sched"
  shows "settled_promise (myAllSettled (Array ps) sched)
           = Fulfilled (map (\<lambda>p. Some (settled_record p)) ps)"
proof (cases "ps = []")
  case True
  then show ?thesis by (simp add: myAllSettled_def myAllSettled_start_def)
next
  case False
  let ?st = "myAllSettled (Array ps) sched"
  have inv: "settled_inv ps ?st" using False by (rule settled_inv_run)
  have "set (settled_ran ?st) = set sched \<inter> {0..<length ps}"
    using False by (simp add: myAllSettled_def settled_ran_run myAllSettled_start_def)
  with assms have "set (settled_ran ?st) = {0..<length ps}" by auto
  moreover have "distinct (settled_ran ?st)" "settledCount ?st = length (settled_ran ?st)"
    using inv by (simp_all add: settled_inv_def)
  ultimately have n: "settledCount ?st = length ps"
    by (metis card_atLeastLessThan diff_zero distinct_card)
  from settled_inv_all[OF inv n] inv n show ?thesis by (simp add: settled_inv_def)
qed

section \<open>The claims about the schedulers and the aggregators\<close>

text \<open>The definitions that evaluate a call on given tasks and a given schedule.\<close>

lemmas map_eval =
  mapLimitOptimized_def mapLimitOptimized_start_def mapLimitOptimized_resume_def
  next_entry_def await_all_def array_set_def settle_def Let_def eval_nat_numeral

lemmas par_eval =
  parallelLimitOptimized_def parallelLimitOptimized_start_def parallelLimitOptimized_resume_def
  catch_block_def report_def not_defined_def next_entry_def await_all_def array_set_def
  settle_def Let_def eval_nat_numeral

lemmas myAll_eval =
  myAll_def myAll_start_def myAll_react_def array_set_def settle_def Let_def

text \<open>
  Claim C5. Let the limit be at least 1. Whatever the order in which the tasks settle, a
  result that \<^verbatim>\<open>mapLimitOptimized\<close> fulfils with has the length of the input and holds at
  each index the value of the task of that index, and when every task succeeds every run
  can be continued to one that fulfils. \<^verbatim>\<open>parallelLimitOptimized\<close>, as lines 1070 to 1099
  stand, gives no result: for a task list that is not empty it never fulfils, and once a
  task has settled it has rejected with the \<^verbatim>\<open>ReferenceError\<close> of the name \<^verbatim>\<open>onProgress\<close>.
\<close>

theorem order_preservation:
  assumes "1 \<le> limit"
  shows
    "(promise (mapLimitOptimized array limit asyncFn sched) = Fulfilled rs \<longrightarrow>
        length rs = length array \<and>
        (\<forall>i<length array. \<exists>v. asyncFn (array ! i) i = Success v \<and> rs ! i = Some v)) \<and>
     ((\<forall>i<length array. succeeded (asyncFn (array ! i) i)) \<longrightarrow>
        (\<exists>rest rs'. promise (mapLimitOptimized array limit asyncFn (sched @ rest))
                       = Fulfilled rs')) \<and>
     (tasks \<noteq> [] \<longrightarrow> promise (parallelLimitOptimized tasks limit sched) \<noteq> Fulfilled rs) \<and>
     (settled (parallelLimitOptimized tasks limit sched) \<noteq> [] \<longrightarrow>
        promise (parallelLimitOptimized tasks limit sched)
          = Rejected (Err ReferenceError ''onProgress is not defined''))"
proof (intro conjI impI)
  have l: "0 \<le> limit" using assms(1) by simp
  {
    assume "promise (mapLimitOptimized array limit asyncFn sched) = Fulfilled rs"
    with assms(1)
    have r: "length rs = length array \<and>
             (\<forall>i<length array. \<exists>v. asyncFn (array ! i) i = Success v \<and> rs ! i = Some v)"
      by (rule map_fulfilled_results)
    from r show "length rs = length array" ..
    from r show "\<forall>i<length array. \<exists>v. asyncFn (array ! i) i = Success v \<and> rs ! i = Some v" ..
  }
  {
    assume ok: "\<forall>i<length array. succeeded (asyncFn (array ! i) i)"
    from map_completes[OF l, of array asyncFn sched] obtain rest
      where "in_flight (mapLimitOptimized array limit asyncFn (sched @ rest)) = 0" ..
    with l ok have "\<exists>rs'. promise (mapLimitOptimized array limit asyncFn (sched @ rest))
                            = Fulfilled rs'"
      by (rule map_quiescent_fulfilled)
    then show "\<exists>rest rs'. promise (mapLimitOptimized array limit asyncFn (sched @ rest))
                            = Fulfilled rs'" ..
  }
  {
    assume "tasks \<noteq> []"
    with assms show "promise (parallelLimitOptimized tasks limit sched) \<noteq> Fulfilled rs"
      by (rule par_never_fulfils)
  }
  assume "settled (parallelLimitOptimized tasks limit sched) \<noteq> []"
  then show "promise (parallelLimitOptimized tasks limit sched)
               = Rejected (Err ReferenceError ''onProgress is not defined'')"
    using par_rejects[of tasks limit sched] by (simp add: not_defined_def)
qed

theorem order_preservation_witness:
  "promise (mapLimitOptimized [10::nat, 20, 30] 2 (\<lambda>x i. Success (Num (int x))) [1, 0, 1])
     = Fulfilled [Some (Num 10), Some (Num 20), Some (Num 30)] \<and>
   length [Some (Num 10), Some (Num 20), Some (Num 30)] = length [10::nat, 20, 30] \<and>
   settled (parallelLimitOptimized [Success (Str ''a''), Success (Str ''b'')] 2 [0]) = [0] \<and>
   promise (parallelLimitOptimized [Success (Str ''a''), Success (Str ''b'')] 2 [0])
     = Rejected (Err ReferenceError ''onProgress is not defined'') \<and>
   promise (parallelLimitOptimized [Success (Str ''a''), Success (Str ''b'')] 2 [0, 1])
     \<noteq> Fulfilled [Some (Str ''a''), Some (Str ''b'')]"
proof -
  have h: "(1::int) \<le> 2" by simp
  have a: "promise (mapLimitOptimized [10::nat, 20, 30] 2 (\<lambda>x i. Success (Num (int x))) [1, 0, 1])
             = Fulfilled [Some (Num 10), Some (Num 20), Some (Num 30)]"
    by (simp add: map_eval)
  have b: "settled (parallelLimitOptimized [Success (Str ''a''), Success (Str ''b'')] 2 [0]) = [0]"
    by (simp add: par_eval)
  from order_preservation[OF h, where array = "[10::nat, 20, 30]"
      and asyncFn = "\<lambda>x i. Success (Num (int x))" and sched = "[1, 0, 1]"
      and rs = "[Some (Num 10), Some (Num 20), Some (Num 30)]"] a
  have c: "length [Some (Num 10), Some (Num 20), Some (Num 30)] = length [10::nat, 20, 30]"
    by blast
  from order_preservation[OF h, where tasks = "[Success (Str ''a''), Success (Str ''b'')]"
      and sched = "[0]" and array = "[10::nat, 20, 30]"
      and asyncFn = "\<lambda>x i. Success (Num (int x))" and rs = "[]"] b
  have d: "promise (parallelLimitOptimized [Success (Str ''a''), Success (Str ''b'')] 2 [0])
             = Rejected (Err ReferenceError ''onProgress is not defined'')"
    by simp
  from order_preservation[OF h, where tasks = "[Success (Str ''a''), Success (Str ''b'')]"
      and sched = "[0, 1]" and rs = "[Some (Str ''a''), Some (Str ''b'')]"
      and array = "[10::nat, 20, 30]" and asyncFn = "\<lambda>x i. Success (Num (int x))"]
  have e: "promise (parallelLimitOptimized [Success (Str ''a''), Success (Str ''b'')] 2 [0, 1])
             \<noteq> Fulfilled [Some (Str ''a''), Some (Str ''b'')]"
    by simp
  from a b c d e show ?thesis by blast
qed

text \<open>
  Claim C6, as stated, fails: in \<^verbatim>\<open>mapLimitOptimized\<close> the slot of a task that rejects is
  never written. Here the only task was claimed and has settled, no worker is left, and
  its slot is empty.
\<close>

theorem rejected_slot_counterexample:
  "started (mapLimitOptimized [0::nat] 1 (\<lambda>x i. Failure (Num 1)) [0]) = [0] \<and>
   settled (mapLimitOptimized [0::nat] 1 (\<lambda>x i. Failure (Num 1)) [0]) = [0] \<and>
   workers (mapLimitOptimized [0::nat] 1 (\<lambda>x i. Failure (Num 1)) [0]) = [Thrown (Num 1)] \<and>
   written (mapLimitOptimized [0::nat] 1 (\<lambda>x i. Failure (Num 1)) [0]) = [] \<and>
   results (mapLimitOptimized [0::nat] 1 (\<lambda>x i. Failure (Num 1)) [0]) = [None]"
  by (simp add: map_eval)

text \<open>
  Claim C6, amended. In every state that a run of \<^verbatim>\<open>mapLimitOptimized\<close> or of
  \<^verbatim>\<open>parallelLimitOptimized\<close> reaches, at most \<open>limit\<close> tasks have started and not settled
  (none has started when the limit is negative), \<open>min limit n\<close> workers were started (none
  when that is negative), and the indices were claimed in increasing order from the
  cursor, each once. In \<^verbatim>\<open>mapLimitOptimized\<close> a slot has been written once when its task
  has fulfilled and never otherwise, so that every slot has been written once when the
  limit is at least 1 and the call fulfils.
\<close>

theorem bounded_concurrency:
  "length (unsettled (mapLimitOptimized array limit asyncFn sched)) \<le> nat limit \<and>
   length (unsettled (parallelLimitOptimized tasks limit sched)) \<le> nat limit \<and>
   length (workers (mapLimitOptimized array limit asyncFn sched))
     = nat (min limit (int (length array))) \<and>
   length (workers (parallelLimitOptimized tasks limit sched))
     = nat (min limit (int (length tasks))) \<and>
   started (mapLimitOptimized array limit asyncFn sched)
     = [0..<iterator (mapLimitOptimized array limit asyncFn sched)] \<and>
   started (parallelLimitOptimized tasks limit sched)
     = [0..<iterator (parallelLimitOptimized tasks limit sched)] \<and>
   distinct (started (mapLimitOptimized array limit asyncFn sched)) \<and>
   distinct (started (parallelLimitOptimized tasks limit sched)) \<and>
   count_list (written (mapLimitOptimized array limit asyncFn sched)) i
     = (if i \<in> set (settled (mapLimitOptimized array limit asyncFn sched)) \<and>
           succeeded (asyncFn (array ! i) i) then 1 else 0) \<and>
   (1 \<le> limit \<and> promise (mapLimitOptimized array limit asyncFn sched) = Fulfilled rs \<and>
    i < length array \<longrightarrow>
      count_list (written (mapLimitOptimized array limit asyncFn sched)) i = 1)"
proof (intro conjI impI)
  let ?st = "mapLimitOptimized array limit asyncFn sched"
  let ?pt = "parallelLimitOptimized tasks limit sched"
  show "length (unsettled ?st) \<le> nat limit" by (rule map_unsettled_le)
  show "length (unsettled ?pt) \<le> nat limit" by (rule par_unsettled_le)
  show "length (workers ?st) = nat (min limit (int (length array)))"
    by (rule workers_length_run)
  show "length (workers ?pt) = nat (min limit (int (length tasks)))"
    by (rule par_workers_length_run)
  show s: "started ?st = [0..<iterator ?st]" by (rule map_started)
  show t: "started ?pt = [0..<iterator ?pt]" by (rule par_started)
  show "distinct (started ?st)" unfolding s by simp
  show "distinct (started ?pt)" unfolding t by simp
  show "count_list (written ?st) i
          = (if i \<in> set (settled ?st) \<and> succeeded (asyncFn (array ! i) i) then 1 else 0)"
    by (rule map_written_count)
next
  let ?st = "mapLimitOptimized array limit asyncFn sched"
  assume a: "1 \<le> limit \<and> promise ?st = Fulfilled rs \<and> i < length array"
  then have l: "1 \<le> limit" and p: "promise ?st = Fulfilled rs" and i: "i < length array"
    by simp_all
  have l0: "0 \<le> limit" using l by simp
  have inv: "map_inv (\<lambda>i. asyncFn (array ! i) i) (length array) ?st"
    using l0 by (rule map_inv_run)
  then have c: "core (length array) ?st" and pk: "promise_ok ?st"
    by (simp_all add: map_inv_def)
  from pk p have ar: "all_returned (workers ?st)" by (simp add: promise_ok_def)
  have "workers ?st \<noteq> [] \<or> length array = 0"
    using workers_length_run[of array limit asyncFn sched] l by (cases "length array") auto
  with c ar have "set (settled ?st) = {0..<length array}" by (rule all_returned_settled)
  with i have "i \<in> set (settled ?st)" by simp
  moreover from map_fulfilled_results[OF l p] i have "succeeded (asyncFn (array ! i) i)"
    by auto
  ultimately show "count_list (written ?st) i = 1" by (simp add: map_written_count)
qed

theorem bounded_concurrency_witness:
  "length (unsettled (mapLimitOptimized [10::nat, 20, 30] 2 (\<lambda>x i. Success (Num (int x))) [1]))
     = 2 \<and>
   length (unsettled (parallelLimitOptimized [Success (Num 1), Success (Num 2), Success (Num 3)]
                        2 [])) = 2 \<and>
   promise (mapLimitOptimized [10::nat, 20, 30] 2 (\<lambda>x i. Success (Num (int x))) [1, 0, 1])
     = Fulfilled [Some (Num 10), Some (Num 20), Some (Num 30)] \<and>
   count_list (written (mapLimitOptimized [10::nat, 20, 30] 2
                          (\<lambda>x i. Success (Num (int x))) [1, 0, 1])) 2 = 1"
proof -
  have a: "promise (mapLimitOptimized [10::nat, 20, 30] 2 (\<lambda>x i. Success (Num (int x))) [1, 0, 1])
             = Fulfilled [Some (Num 10), Some (Num 20), Some (Num 30)]"
    by (simp add: map_eval)
  have b: "length (unsettled (mapLimitOptimized [10::nat, 20, 30] 2
                     (\<lambda>x i. Success (Num (int x))) [1])) = 2"
    by (simp add: map_eval unsettled_def)
  have c: "length (unsettled (parallelLimitOptimized
                     [Success (Num 1), Success (Num 2), Success (Num 3)] 2 [])) = 2"
    by (simp add: par_eval unsettled_def)
  have "(1::int) \<le> 2 \<and> (2::nat) < length [10::nat, 20, 30]" by simp
  with bounded_concurrency[where array = "[10::nat, 20, 30]" and limit = 2
      and asyncFn = "\<lambda>x i. Success (Num (int x))" and sched = "[1, 0, 1]" and i = 2
      and rs = "[Some (Num 10), Some (Num 20), Some (Num 30)]"] a
  have "count_list (written (mapLimitOptimized [10::nat, 20, 30] 2
                          (\<lambda>x i. Success (Num (int x))) [1, 0, 1])) 2 = 1"
    by blast
  with a b c show ?thesis by blast
qed

text \<open>
  Claim C7. \<^verbatim>\<open>Promise.myAllSettled\<close> of an array never rejects, and once every input has
  settled it has fulfilled with one record for each input, in the order of the inputs,
  tagged \<^verbatim>\<open>fulfilled\<close> with the value or \<^verbatim>\<open>rejected\<close> with the reason.
  \<^verbatim>\<open>parallelLimitOptimized\<close>, as lines 1070 to 1099 stand, does not: when the first task
  settles, whether it succeeds or fails, the worker throws the \<^verbatim>\<open>ReferenceError\<close> of the
  name \<^verbatim>\<open>onProgress\<close> out of its \<^verbatim>\<open>catch\<close> block and the call is rejected with it, whatever
  the other tasks do.
\<close>

theorem settle_all_completeness:
  "(w < length (workers (parallelLimitOptimized tasks limit sched)) \<and>
    workers (parallelLimitOptimized tasks limit sched) ! w = Awaiting i \<longrightarrow>
      promise (parallelLimitOptimized tasks limit (sched @ w # rest))
        = Rejected (Err ReferenceError ''onProgress is not defined'')) \<and>
   settled_promise (myAllSettled (Array ps) reactions) \<noteq> Rejected e \<and>
   (settled_promise (myAllSettled (Array ps) reactions) = Fulfilled rs \<longrightarrow>
      rs = map (\<lambda>p. Some (settled_record p)) ps) \<and>
   ({0..<length ps} \<subseteq> set reactions \<longrightarrow>
      settled_promise (myAllSettled (Array ps) reactions)
        = Fulfilled (map (\<lambda>p. Some (settled_record p)) ps))"
proof (intro conjI impI)
  assume "w < length (workers (parallelLimitOptimized tasks limit sched)) \<and>
          workers (parallelLimitOptimized tasks limit sched) ! w = Awaiting i"
  then have w: "w < length (workers (parallelLimitOptimized tasks limit sched))"
    "workers (parallelLimitOptimized tasks limit sched) ! w = Awaiting i"
    by simp_all
  from par_first_settlement_rejects[OF w, of rest]
  show "promise (parallelLimitOptimized tasks limit (sched @ w # rest))
          = Rejected (Err ReferenceError ''onProgress is not defined'')"
    by (simp add: not_defined_def)
next
  show "settled_promise (myAllSettled (Array ps) reactions) \<noteq> Rejected e"
    by (rule myAllSettled_never_rejects)
  show "rs = map (\<lambda>p. Some (settled_record p)) ps"
    if "settled_promise (myAllSettled (Array ps) reactions) = Fulfilled rs"
    using that by (rule myAllSettled_fulfilled)
  show "settled_promise (myAllSettled (Array ps) reactions)
          = Fulfilled (map (\<lambda>p. Some (settled_record p)) ps)"
    if "{0..<length ps} \<subseteq> set reactions"
    using that by (rule myAllSettled_complete)
qed

theorem settle_all_completeness_witness:
  "promise (parallelLimitOptimized [Success (Num 1), Failure (Str ''no''), Success (Num 3)]
              2 [0])
     = Rejected (Err ReferenceError ''onProgress is not defined'') \<and>
   promise (parallelLimitOptimized [Success (Num 1), Failure (Str ''no''), Success (Num 3)]
              2 [1, 0])
     = Rejected (Err ReferenceError ''onProgress is not defined'') \<and>
   settled_promise (myAllSettled (Array [Success (Num 1), Failure (Str ''no'')]) [1, 0])
     = Fulfilled [Some (Obj [(''status'', Str ''fulfilled''), (''value'', Num 1)]),
                  Some (Obj [(''status'', Str ''rejected''), (''reason'', Str ''no'')])]"
proof -
  let ?tasks = "[Success (Num 1), Failure (Str ''no''), Success (Num 3)]"
  have a: "0 < length (workers (parallelLimitOptimized ?tasks 2 [])) \<and>
           workers (parallelLimitOptimized ?tasks 2 []) ! 0 = Awaiting 0"
    "1 < length (workers (parallelLimitOptimized ?tasks 2 [])) \<and>
     workers (parallelLimitOptimized ?tasks 2 []) ! 1 = Awaiting 1"
    by (simp_all add: par_eval)
  have b: "{0..<length [Success (Num 1), Failure (Str ''no'')]} \<subseteq> set [1, 0]" by auto
  from settle_all_completeness[where tasks = ?tasks and limit = 2 and sched = "[]"
      and w = 0 and i = 0 and rest = "[]"] a(1)
  have c: "promise (parallelLimitOptimized ?tasks 2 ([] @ 0 # []))
             = Rejected (Err ReferenceError ''onProgress is not defined'')"
    by blast
  from settle_all_completeness[where tasks = ?tasks and limit = 2 and sched = "[]"
      and w = 1 and i = 1 and rest = "[0]"] a(2)
  have d: "promise (parallelLimitOptimized ?tasks 2 ([] @ 1 # [0]))
             = Rejected (Err ReferenceError ''onProgress is not defined'')"
    by blast
  from settle_all_completeness[where ps = "[Success (Num 1), Failure (Str ''no'')]"
      and reactions = "[1, 0]"] b
  have "settled_promise (myAllSettled (Array [Success (Num 1), Failure (Str ''no'')]) [1, 0])
          = Fulfilled (map (\<lambda>p. Some (settled_record p)) [Success (Num 1), Failure (Str ''no'')])"
    by blast
  with c d show ?thesis by (simp add: settled_record_def)
qed

text \<open>
  Claim C8. When no task has failed so far and the task that a worker of
  \<^verbatim>\<open>mapLimitOptimized\<close> awaits rejects, the call is rejected with that error as soon as the
  worker resumes, whatever the tasks still running do afterwards; the values recorded so
  far are not part of the rejection. The same holds for \<^verbatim>\<open>Promise.myAll\<close> when an input
  rejects and no input has rejected before.
\<close>

theorem fail_fast:
  "((\<forall>k \<in> set (settled (mapLimitOptimized array limit asyncFn sched)).
       succeeded (asyncFn (array ! k) k)) \<and>
    w < length (workers (mapLimitOptimized array limit asyncFn sched)) \<and>
    workers (mapLimitOptimized array limit asyncFn sched) ! w = Awaiting i \<and>
    asyncFn (array ! i) i = Failure e \<longrightarrow>
      promise (mapLimitOptimized array limit asyncFn (sched @ w # rest)) = Rejected e) \<and>
   ((\<forall>k \<in> set (all_ran (myAll (Array ps) reactions)). succeeded (ps ! k)) \<and>
    j < length ps \<and> j \<notin> set (all_ran (myAll (Array ps) reactions)) \<and>
    ps ! j = Failure e \<longrightarrow>
      all_promise (myAll (Array ps) (reactions @ j # rest)) = Rejected e)"
proof (intro conjI impI)
  assume "(\<forall>k \<in> set (settled (mapLimitOptimized array limit asyncFn sched)).
             succeeded (asyncFn (array ! k) k)) \<and>
          w < length (workers (mapLimitOptimized array limit asyncFn sched)) \<and>
          workers (mapLimitOptimized array limit asyncFn sched) ! w = Awaiting i \<and>
          asyncFn (array ! i) i = Failure e"
  then have ok: "\<forall>k \<in> set (settled (mapLimitOptimized array limit asyncFn sched)).
                   succeeded (asyncFn (array ! k) k)"
    and w: "w < length (workers (mapLimitOptimized array limit asyncFn sched))"
      "workers (mapLimitOptimized array limit asyncFn sched) ! w = Awaiting i"
    and f: "asyncFn (array ! i) i = Failure e"
    by simp_all
  from ok w f
  show "promise (mapLimitOptimized array limit asyncFn (sched @ w # rest)) = Rejected e"
    by (rule map_first_failure)
next
  assume "(\<forall>k \<in> set (all_ran (myAll (Array ps) reactions)). succeeded (ps ! k)) \<and>
          j < length ps \<and> j \<notin> set (all_ran (myAll (Array ps) reactions)) \<and>
          ps ! j = Failure e"
  then have ok: "\<forall>k \<in> set (all_ran (myAll (Array ps) reactions)). succeeded (ps ! k)"
    and j: "j < length ps" "j \<notin> set (all_ran (myAll (Array ps) reactions))"
    and f: "ps ! j = Failure e"
    by simp_all
  from ok j f
  show "all_promise (myAll (Array ps) (reactions @ j # rest)) = Rejected e"
    by (rule myAll_first_failure)
qed

theorem fail_fast_witness:
  "in_flight (mapLimitOptimized [0::nat, 1, 2, 3, 4] 5
       (\<lambda>x i. if i = 1 then Failure (Str ''boom'') else Success (Num (int x))) [0, 1]) = 3 \<and>
   promise (mapLimitOptimized [0::nat, 1, 2, 3, 4] 5
       (\<lambda>x i. if i = 1 then Failure (Str ''boom'') else Success (Num (int x))) [0, 1])
     = Rejected (Str ''boom'') \<and>
   promise (mapLimitOptimized [0::nat, 1, 2, 3, 4] 5
       (\<lambda>x i. if i = 1 then Failure (Str ''boom'') else Success (Num (int x))) [0, 1, 4, 2, 3])
     = Rejected (Str ''boom'') \<and>
   all_promise (myAll (Array [Success (Num 0), Failure (Str ''boom''), Success (Num 2)]) [0, 1])
     = Rejected (Str ''boom'')"
proof -
  let ?f = "\<lambda>x i. if i = 1 then Failure (Str ''boom'') else Success (Num (int x))"
  let ?ps = "[Success (Num 0), Failure (Str ''boom''), Success (Num 2)]"
  have a: "(\<forall>k \<in> set (settled (mapLimitOptimized [0::nat, 1, 2, 3, 4] 5 ?f [0])).
              succeeded (?f ([0::nat, 1, 2, 3, 4] ! k) k)) \<and>
           1 < length (workers (mapLimitOptimized [0::nat, 1, 2, 3, 4] 5 ?f [0])) \<and>
           workers (mapLimitOptimized [0::nat, 1, 2, 3, 4] 5 ?f [0]) ! 1 = Awaiting 1 \<and>
           ?f ([0::nat, 1, 2, 3, 4] ! 1) 1 = Failure (Str ''boom'')"
    by (simp add: map_eval)
  have b: "(\<forall>k \<in> set (all_ran (myAll (Array ?ps) [0])). succeeded (?ps ! k)) \<and>
           1 < length ?ps \<and> 1 \<notin> set (all_ran (myAll (Array ?ps) [0])) \<and>
           ?ps ! 1 = Failure (Str ''boom'')"
    by (simp add: myAll_eval)
  have c: "in_flight (mapLimitOptimized [0::nat, 1, 2, 3, 4] 5 ?f [0, 1]) = 3"
    by (simp add: map_eval in_flight_def)
  from fail_fast[where array = "[0::nat, 1, 2, 3, 4]" and limit = 5 and asyncFn = ?f
      and sched = "[0]" and w = 1 and i = 1 and e = "Str ''boom''" and rest = "[]"
      and ps = ?ps and reactions = "[0]" and j = 1] a b
  have d: "promise (mapLimitOptimized [0::nat, 1, 2, 3, 4] 5 ?f ([0] @ 1 # [])) = Rejected (Str ''boom'')"
    "all_promise (myAll (Array ?ps) ([0] @ 1 # [])) = Rejected (Str ''boom'')"
    by blast+
  from fail_fast[where array = "[0::nat, 1, 2, 3, 4]" and limit = 5 and asyncFn = ?f
      and sched = "[0]" and w = 1 and i = 1 and e = "Str ''boom''" and rest = "[4, 2, 3]"] a
  have "promise (mapLimitOptimized [0::nat, 1, 2, 3, 4] 5 ?f ([0] @ 1 # [4, 2, 3]))
          = Rejected (Str ''boom'')"
    by blast
  with c d show ?thesis by simp
qed

end
